theory Spec2Isabelle
  imports Main "HOL-Library.Multiset" "HOL-Library.Sublist"
begin

section \<open>Union-Find with path compression and union by rank\<close>

text \<open>
  The embedding follows \<^verbatim>\<open>union_find_example.go\<close>. Go's \<^verbatim>\<open>int\<close> is modelled by
  \<^typ>\<open>int\<close>: every value the structure stores (an index, a rank, the count) stays
  between 0 and the length of the slices, so the 64-bit wrap-around is never reached.
  The comparison that \<^verbatim>\<open>KruskalMST\<close> hands to \<^verbatim>\<open>sort.Slice\<close> takes two positions of the
  slice and compares the weights found there; the model compares the two elements.
  A run-time panic is a value of type \<open>panic\<close>; a call that never returns (unbounded
  recursion of \<^verbatim>\<open>Find\<close> on a cyclic parent array) is \<open>None\<close>.
\<close>

subsection \<open>Results of calls: panics and non-termination\<close>

datatype panic = IndexOutOfRange | MakeSliceLenOutOfRange

type_synonym 'a res = "(panic + 'a) option"

definition ret :: "'a \<Rightarrow> 'a res" where
  "ret a = Some (Inr a)"

definition throw :: "panic \<Rightarrow> 'a res" where
  "throw e = Some (Inl e)"

definition bnd :: "'a res \<Rightarrow> ('a \<Rightarrow> 'b res) \<Rightarrow> 'b res" where
  "bnd m f = (case m of None \<Rightarrow> None | Some (Inl e) \<Rightarrow> Some (Inl e) | Some (Inr a) \<Rightarrow> f a)"

definition in_range :: "'a list \<Rightarrow> int \<Rightarrow> bool" where
  "in_range xs i = (0 \<le> i \<and> i < int (length xs))"

text \<open>The slice read \<^verbatim>\<open>xs[i]\<close> and the slice write \<^verbatim>\<open>xs[i] = v\<close>, with Go's bounds check.\<close>

definition index :: "'a list \<Rightarrow> int \<Rightarrow> 'a res" where
  "index xs i = (if in_range xs i then ret (xs ! nat i) else throw IndexOutOfRange)"

definition assign :: "'a list \<Rightarrow> int \<Rightarrow> 'a \<Rightarrow> 'a list res" where
  "assign xs i v = (if in_range xs i then ret (xs[nat i := v]) else throw IndexOutOfRange)"

subsection \<open>The structure and its operations\<close>

record UnionFind =
  parent :: "int list"
  rank :: "int list"
  count :: int

definition NewUnionFind :: "int \<Rightarrow> UnionFind res" where
  "NewUnionFind n =
     (if n < 0 then throw MakeSliceLenOutOfRange
      else ret \<lparr>parent = map int [0..<nat n], rank = replicate (nat n) 0, count = n\<rparr>)"

partial_function (option) Find :: "UnionFind \<Rightarrow> int \<Rightarrow> (panic + UnionFind \<times> int) option" where
  "Find uf x =
     (if \<not> in_range (parent uf) x then Some (Inl IndexOutOfRange)
      else if parent uf ! nat x \<noteq> x then
        Option.bind (Find uf (parent uf ! nat x)) (\<lambda>r.
          case r of
            Inl e \<Rightarrow> Some (Inl e)
          | Inr (uf1, root) \<Rightarrow>
              bnd (assign (parent uf1) x root) (\<lambda>p.
              bnd (index p x) (\<lambda>v. ret (uf1\<lparr>parent := p\<rparr>, v))))
      else Some (Inr (uf, parent uf ! nat x)))"

declare Find.simps [code]

definition Union :: "UnionFind \<Rightarrow> int \<Rightarrow> int \<Rightarrow> (UnionFind \<times> bool) res" where
  "Union uf x y =
     bnd (Find uf x) (\<lambda>(uf1, rootX).
     bnd (Find uf1 y) (\<lambda>(uf2, rootY).
       if rootX = rootY then ret (uf2, False)
       else
         bnd (index (rank uf2) rootX) (\<lambda>rkX.
         bnd (index (rank uf2) rootY) (\<lambda>rkY.
         bnd (if rkX < rkY then
                bnd (assign (parent uf2) rootX rootY) (\<lambda>p. ret (uf2\<lparr>parent := p\<rparr>))
              else if rkX > rkY then
                bnd (assign (parent uf2) rootY rootX) (\<lambda>p. ret (uf2\<lparr>parent := p\<rparr>))
              else
                bnd (assign (parent uf2) rootY rootX) (\<lambda>p.
                bnd (index (rank uf2) rootX) (\<lambda>r.
                bnd (assign (rank uf2) rootX (r + 1)) (\<lambda>rk.
                  ret (uf2\<lparr>parent := p, rank := rk\<rparr>)))))
             (\<lambda>uf3. ret (uf3\<lparr>count := count uf3 - 1\<rparr>, True))))))"

definition Connected :: "UnionFind \<Rightarrow> int \<Rightarrow> int \<Rightarrow> (UnionFind \<times> bool) res" where
  "Connected uf x y =
     bnd (Find uf x) (\<lambda>(uf1, rx).
     bnd (Find uf1 y) (\<lambda>(uf2, ry). ret (uf2, rx = ry)))"

definition Count :: "UnionFind \<Rightarrow> int" where
  "Count uf = count uf"


text \<open>
  \<^verbatim>\<open>rank[rootX]++\<close> and \<^verbatim>\<open>count--\<close> are written without wrap-around: in every
  reachable state the ranks and the count lie between 0 and \<open>n\<close> (lemma
  \<open>reachable_values_in_range\<close> below), and \<open>n\<close> is the length of a slice. The total
  weight of \<^verbatim>\<open>KruskalMST\<close> adds weights supplied by the caller, so there the 64-bit
  wrap-around is written out.
\<close>

definition wrap64 :: "int \<Rightarrow> int" where
  "wrap64 v = (v + 2 ^ 63) mod 2 ^ 64 - 2 ^ 63"

subsection \<open>Graph algorithms on top of the structure\<close>

record Edge =
  From :: int
  To :: int
  Weight :: int

text \<open>The comparison closure handed to \<^verbatim>\<open>sort.Slice\<close> in \<^verbatim>\<open>KruskalMST\<close>.\<close>

definition weight_less :: "Edge \<Rightarrow> Edge \<Rightarrow> bool" where
  "weight_less a b = (Weight a < Weight b)"

text \<open>
  The loop of \<^verbatim>\<open>KruskalMST\<close> over the sorted edges, with the accumulators \<^verbatim>\<open>mst\<close> and
  \<^verbatim>\<open>totalWeight\<close>; \<^verbatim>\<open>break\<close> leaves the loop as soon as \<^verbatim>\<open>len(mst) == n-1\<close>.
\<close>

fun KruskalMST_loop :: "int \<Rightarrow> UnionFind \<Rightarrow> Edge list \<Rightarrow> Edge list \<Rightarrow> int \<Rightarrow> (Edge list \<times> int) res" where
  "KruskalMST_loop n uf [] mst totalWeight = ret (mst, totalWeight)"
| "KruskalMST_loop n uf (edge # edges) mst totalWeight =
     bnd (Union uf (From edge) (To edge)) (\<lambda>(uf1, ok).
       if ok then
         (let mst1 = mst @ [edge]; totalWeight1 = wrap64 (totalWeight + Weight edge)
          in if int (length mst1) = n - 1 then ret (mst1, totalWeight1)
             else KruskalMST_loop n uf1 edges mst1 totalWeight1)
       else KruskalMST_loop n uf1 edges mst totalWeight)"

text \<open>
  \<^verbatim>\<open>sort.Slice\<close> belongs to Go's standard library, not to this repository: it is a
  parameter of the model. It reorders the caller's slice in place, so the model returns
  the slice's final contents together with the tree and its weight.
\<close>

definition KruskalMST ::
  "((Edge \<Rightarrow> Edge \<Rightarrow> bool) \<Rightarrow> Edge list \<Rightarrow> Edge list) \<Rightarrow> int \<Rightarrow> Edge list \<Rightarrow>
     (Edge list \<times> Edge list \<times> int) res" where
  "KruskalMST sort_Slice n edges =
     (let edges1 = sort_Slice weight_less edges
      in bnd (NewUnionFind n) (\<lambda>uf.
         bnd (KruskalMST_loop n uf edges1 [] 0) (\<lambda>(mst, totalWeight).
           ret (edges1, mst, totalWeight))))"

fun DetectCycle_loop :: "UnionFind \<Rightarrow> Edge list \<Rightarrow> bool res" where
  "DetectCycle_loop uf [] = ret False"
| "DetectCycle_loop uf (edge # edges) =
     bnd (Connected uf (From edge) (To edge)) (\<lambda>(uf1, c).
       if c then ret True
       else bnd (Union uf1 (From edge) (To edge)) (\<lambda>(uf2, _). DetectCycle_loop uf2 edges))"

definition DetectCycle :: "int \<Rightarrow> Edge list \<Rightarrow> bool res" where
  "DetectCycle n edges = bnd (NewUnionFind n) (\<lambda>uf. DetectCycle_loop uf edges)"

subsection \<open>Sequences of calls\<close>

datatype call = CallFind int | CallUnion int int | CallConnected int int

datatype reply = Root int | Answer bool

fun valid_call :: "int \<Rightarrow> call \<Rightarrow> bool" where
  "valid_call n (CallFind x) = (0 \<le> x \<and> x < n)"
| "valid_call n (CallUnion x y) = (0 \<le> x \<and> x < n \<and> 0 \<le> y \<and> y < n)"
| "valid_call n (CallConnected x y) = (0 \<le> x \<and> x < n \<and> 0 \<le> y \<and> y < n)"

fun exec :: "UnionFind \<Rightarrow> call \<Rightarrow> (UnionFind \<times> reply) res" where
  "exec uf (CallFind x) = bnd (Find uf x) (\<lambda>(uf1, r). ret (uf1, Root r))"
| "exec uf (CallUnion x y) = bnd (Union uf x y) (\<lambda>(uf1, b). ret (uf1, Answer b))"
| "exec uf (CallConnected x y) = bnd (Connected uf x y) (\<lambda>(uf1, b). ret (uf1, Answer b))"

fun run :: "UnionFind \<Rightarrow> call list \<Rightarrow> (UnionFind \<times> reply list) res" where
  "run uf [] = ret (uf, [])"
| "run uf (c # cs) =
     bnd (exec uf c) (\<lambda>(uf1, r). bnd (run uf1 cs) (\<lambda>(uf2, rs). ret (uf2, r # rs)))"

text \<open>The number of \<^verbatim>\<open>Union\<close> calls of a run that returned true.\<close>

fun successful_unions :: "call list \<Rightarrow> reply list \<Rightarrow> nat" where
  "successful_unions (CallUnion x y # cs) (Answer True # rs) = Suc (successful_unions cs rs)"
| "successful_unions (c # cs) (r # rs) = successful_unions cs rs"
| "successful_unions _ _ = 0"

text \<open>A state is reachable when some run of valid calls from a fresh structure ends in it.\<close>

definition reachable :: "int \<Rightarrow> UnionFind \<Rightarrow> bool" where
  "reachable n uf \<longleftrightarrow>
     (\<exists>cs uf0 rs. (\<forall>c\<in>set cs. valid_call n c) \<and> NewUnionFind n = ret uf0 \<and>
        run uf0 cs = ret (uf, rs))"

text \<open>\<^verbatim>\<open>Find\<close> called on each element of a list in turn, as \<^verbatim>\<open>GetComponents\<close> does.\<close>

fun find_all :: "UnionFind \<Rightarrow> int list \<Rightarrow> (UnionFind \<times> int list) res" where
  "find_all uf [] = ret (uf, [])"
| "find_all uf (x # xs) =
     bnd (Find uf x) (\<lambda>(uf1, r). bnd (find_all uf1 xs) (\<lambda>(uf2, rs). ret (uf2, r # rs)))"

text \<open>A list of pairs handed to \<^verbatim>\<open>Union\<close> one after the other, results ignored.\<close>

fun apply_unions :: "UnionFind \<Rightarrow> (int \<times> int) list \<Rightarrow> UnionFind res" where
  "apply_unions uf [] = ret uf"
| "apply_unions uf ((x, y) # ps) = bnd (Union uf x y) (\<lambda>(uf1, _). apply_unions uf1 ps)"

subsection \<open>Representatives, the forest invariant and connectivity\<close>

text \<open>\<open>is_rep ps x r\<close>: following the parent pointers \<open>ps\<close> from \<open>x\<close> ends in the root \<open>r\<close>.\<close>

inductive is_rep :: "int list \<Rightarrow> int \<Rightarrow> int \<Rightarrow> bool" for ps where
  root: "in_range ps x \<Longrightarrow> ps ! nat x = x \<Longrightarrow> is_rep ps x x"
| step: "in_range ps x \<Longrightarrow> ps ! nat x \<noteq> x \<Longrightarrow> is_rep ps (ps ! nat x) r \<Longrightarrow> is_rep ps x r"

text \<open>Every parent is a valid index, and the rank grows strictly along every parent link.\<close>

definition ranked :: "int list \<Rightarrow> int list \<Rightarrow> bool" where
  "ranked ps rk \<longleftrightarrow>
     length rk = length ps \<and>
     (\<forall>x. in_range ps x \<longrightarrow>
        in_range ps (ps ! nat x) \<and> (ps ! nat x \<noteq> x \<longrightarrow> rk ! nat x < rk ! nat (ps ! nat x)))"

definition roots :: "int list \<Rightarrow> int set" where
  "roots ps = {x. in_range ps x \<and> ps ! nat x = x}"

definition uf_inv :: "UnionFind \<Rightarrow> bool" where
  "uf_inv uf \<longleftrightarrow> ranked (parent uf) (rank uf) \<and> count uf = int (card (roots (parent uf)))"

definition same_set :: "int list \<Rightarrow> int \<Rightarrow> int \<Rightarrow> bool" where
  "same_set ps a b \<longleftrightarrow> (\<exists>r. is_rep ps a r \<and> is_rep ps b r)"

definition conn :: "int list \<Rightarrow> (int \<times> int) set" where
  "conn ps = {(a, b). same_set ps a b}"

text \<open>Undirected reachability among the vertices \<open>0..n-1\<close> along a list of edges.\<close>

definition edge_pairs :: "Edge list \<Rightarrow> (int \<times> int) set" where
  "edge_pairs es = (\<lambda>e. (From e, To e)) ` set es"

definition linked :: "int \<Rightarrow> (int \<times> int) set \<Rightarrow> int \<Rightarrow> int \<Rightarrow> bool" where
  "linked n E u v \<longleftrightarrow> (u, v) \<in> (Id_on {0..<n} \<union> E \<union> E\<inverse>)\<^sup>+"

definition valid_edge :: "int \<Rightarrow> Edge \<Rightarrow> bool" where
  "valid_edge n e \<longleftrightarrow> 0 \<le> From e \<and> From e < n \<and> 0 \<le> To e \<and> To e < n"

text \<open>
  What Go documents of \<^verbatim>\<open>sort.Slice(x, less)\<close>: it sorts the slice in place, so that no
  later element is lt than an earlier one, and "the sort is not guaranteed to be
  stable". The contract is stated for the comparison that \<^verbatim>\<open>KruskalMST\<close> passes.
\<close>

definition sort_Slice_contract :: "((Edge \<Rightarrow> Edge \<Rightarrow> bool) \<Rightarrow> Edge list \<Rightarrow> Edge list) \<Rightarrow> bool" where
  "sort_Slice_contract sort_Slice \<longleftrightarrow>
     (\<forall>xs. mset (sort_Slice weight_less xs) = mset xs \<and>
           sorted_wrt (\<lambda>a b. \<not> weight_less b a) (sort_Slice weight_less xs))"

text \<open>
  Two insertion sorts that meet this contract. \<open>insert_sorted\<close> puts an element in front
  of the first element that is not lt than it. Inserting the elements from the last
  to the first keeps equal elements in input order; inserting them from the first to
  the last reverses the order of equal elements.
\<close>

fun insert_sorted :: "('a \<Rightarrow> 'a \<Rightarrow> bool) \<Rightarrow> 'a \<Rightarrow> 'a list \<Rightarrow> 'a list" where
  "insert_sorted lt x [] = [x]"
| "insert_sorted lt x (y # ys) =
     (if lt y x then y # insert_sorted lt x ys else x # y # ys)"

definition insertion_sort :: "('a \<Rightarrow> 'a \<Rightarrow> bool) \<Rightarrow> 'a list \<Rightarrow> 'a list" where
  "insertion_sort lt xs = foldr (insert_sorted lt) xs []"


text \<open>The stable ascending-by-weight sort of an edge list, as the specification words it.\<close>

definition stable_sort_by_weight :: "Edge list \<Rightarrow> Edge list" where
  "stable_sort_by_weight edges = sort_key Weight edges"

text \<open>The edge list of Example 3 in \<^verbatim>\<open>DemoUnionFind\<close>.\<close>

definition example3_edges :: "Edge list" where
  "example3_edges =
     [\<lparr>From = 0, To = 1, Weight = 4\<rparr>, \<lparr>From = 0, To = 7, Weight = 8\<rparr>,
      \<lparr>From = 1, To = 2, Weight = 8\<rparr>, \<lparr>From = 1, To = 7, Weight = 11\<rparr>,
      \<lparr>From = 2, To = 3, Weight = 7\<rparr>, \<lparr>From = 2, To = 8, Weight = 2\<rparr>,
      \<lparr>From = 2, To = 5, Weight = 4\<rparr>, \<lparr>From = 3, To = 4, Weight = 9\<rparr>,
      \<lparr>From = 3, To = 5, Weight = 14\<rparr>, \<lparr>From = 4, To = 5, Weight = 10\<rparr>,
      \<lparr>From = 5, To = 6, Weight = 2\<rparr>, \<lparr>From = 6, To = 7, Weight = 1\<rparr>,
      \<lparr>From = 6, To = 8, Weight = 6\<rparr>, \<lparr>From = 7, To = 8, Weight = 7\<rparr>]"

text \<open>
  The ascending orders of these edges: four pairs of edges have equal weights (2, 4, 7
  and 8), and each pair may come in input order or swapped.
\<close>

definition tie :: "bool \<Rightarrow> 'a \<Rightarrow> 'a \<Rightarrow> 'a list" where
  "tie swapped x y = (if swapped then [y, x] else [x, y])"

definition example3_ascending :: "bool \<Rightarrow> bool \<Rightarrow> bool \<Rightarrow> bool \<Rightarrow> Edge list" where
  "example3_ascending s2 s4 s7 s8 =
     [\<lparr>From = 6, To = 7, Weight = 1\<rparr>] @
     tie s2 \<lparr>From = 2, To = 8, Weight = 2\<rparr> \<lparr>From = 5, To = 6, Weight = 2\<rparr> @
     tie s4 \<lparr>From = 0, To = 1, Weight = 4\<rparr> \<lparr>From = 2, To = 5, Weight = 4\<rparr> @
     [\<lparr>From = 6, To = 8, Weight = 6\<rparr>] @
     tie s7 \<lparr>From = 2, To = 3, Weight = 7\<rparr> \<lparr>From = 7, To = 8, Weight = 7\<rparr> @
     tie s8 \<lparr>From = 0, To = 7, Weight = 8\<rparr> \<lparr>From = 1, To = 2, Weight = 8\<rparr> @
     [\<lparr>From = 3, To = 4, Weight = 9\<rparr>, \<lparr>From = 4, To = 5, Weight = 10\<rparr>,
      \<lparr>From = 1, To = 7, Weight = 11\<rparr>, \<lparr>From = 3, To = 5, Weight = 14\<rparr>]"

text \<open>The size and the weight of the tree that the loop of \<^verbatim>\<open>KruskalMST\<close> builds.\<close>

definition tree_size_weight :: "int \<Rightarrow> Edge list \<Rightarrow> (nat \<times> int) res" where
  "tree_size_weight n es =
     bnd (NewUnionFind n) (\<lambda>uf.
     bnd (KruskalMST_loop n uf es [] 0) (\<lambda>(mst, total). ret (length mst, total)))"

text \<open>The invariant of a structure built for \<open>n\<close> elements.\<close>

definition sized :: "int \<Rightarrow> UnionFind \<Rightarrow> bool" where
  "sized n uf \<longleftrightarrow> uf_inv uf \<and> int (length (parent uf)) = n"

text \<open>
  The values a reachable structure stores: no rank is negative, and the ranks and the
  count together never exceed \<open>n\<close>.
\<close>

definition bounded :: "int \<Rightarrow> UnionFind \<Rightarrow> bool" where
  "bounded n uf \<longleftrightarrow> (\<forall>r\<in>set (rank uf). 0 \<le> r) \<and> sum_list (rank uf) + count uf \<le> n"

section \<open>Properties of the representatives\<close>


lemma in_range_nat: "in_range xs i \<Longrightarrow> nat i < length xs"
  by (auto simp: in_range_def)

lemma is_rep_det: "is_rep ps x r \<Longrightarrow> is_rep ps x r' \<Longrightarrow> r = r'"
proof (induction arbitrary: r' rule: is_rep.induct)
  case (root x)
  from root.prems root.hyps show ?case by (cases rule: is_rep.cases) auto
next
  case (step x r)
  from step.prems step.hyps(1,2) have "is_rep ps (ps ! nat x) r'"
    by (cases rule: is_rep.cases) auto
  then show ?case by (rule step.IH)
qed

lemma is_rep_range: "is_rep ps x r \<Longrightarrow> in_range ps x"
  by (erule is_rep.cases) auto

lemma is_rep_root: "is_rep ps x r \<Longrightarrow> in_range ps r \<and> ps ! nat r = r"
  by (induction rule: is_rep.induct) auto

lemma is_rep_self: "is_rep ps x x \<longleftrightarrow> in_range ps x \<and> ps ! nat x = x"
  using is_rep_root is_rep.root by blast

lemma is_rep_idem: "is_rep ps x r \<Longrightarrow> is_rep ps r r"
  using is_rep_root is_rep.root by blast

lemma is_rep_rank: "is_rep ps x r \<Longrightarrow> ranked ps rk \<Longrightarrow> rk ! nat x \<le> rk ! nat r \<and> (x \<noteq> r \<longrightarrow> rk ! nat x < rk ! nat r)"
proof (induction rule: is_rep.induct)
  case (root x)
  then show ?case by simp
next
  case (step x r)
  from step.prems step.hyps(1,2) have "rk ! nat x < rk ! nat (ps ! nat x)"
    by (simp add: ranked_def)
  with step.IH[OF step.prems] show ?case by simp
qed

lemma rank_le_Max: "in_range rk x \<Longrightarrow> rk ! nat x \<le> Max (set rk)"
  by (simp add: in_range_def nat_less_iff)

lemma rep_exists:
  assumes "ranked ps rk"
  shows "in_range ps x \<Longrightarrow> \<exists>r. is_rep ps x r"
proof (induction "nat (Max (set rk) - rk ! nat x)" arbitrary: x rule: less_induct)
  case less
  show ?case
  proof (cases "ps ! nat x = x")
    case True
    with less.prems show ?thesis by (blast intro: is_rep.root)
  next
    case False
    let ?p = "ps ! nat x"
    from assms less.prems False have p: "in_range ps ?p" and lt: "rk ! nat x < rk ! nat ?p"
      by (simp_all add: ranked_def)
    from assms p have "in_range rk ?p" by (simp add: ranked_def in_range_def)
    then have "rk ! nat ?p \<le> Max (set rk)" by (rule rank_le_Max)
    with lt have "nat (Max (set rk) - rk ! nat ?p) < nat (Max (set rk) - rk ! nat x)" by simp
    from less.hyps[OF this p] obtain r where "is_rep ps ?p r" by blast
    with less.prems False show ?thesis by (blast intro: is_rep.step)
  qed
qed

lemma compress_rep:
  assumes xr: "is_rep ps x r" and nx: "ps ! nat x \<noteq> x"
  shows "is_rep (ps[nat x := r]) y s \<longleftrightarrow> is_rep ps y s"
proof
  let ?ps' = "ps[nat x := r]"
  have rx: "in_range ps x" using xr by (rule is_rep_range)
  have rr: "in_range ps r" "ps ! nat r = r" using is_rep_root[OF xr] by simp_all
  have neq: "r \<noteq> x" using rr nx by auto
  have upd_x: "?ps' ! nat x = r" using in_range_nat[OF rx] by simp
  have upd_o: "\<And>z. in_range ps z \<Longrightarrow> z \<noteq> x \<Longrightarrow> ?ps' ! nat z = ps ! nat z"
    using rx by (simp add: in_range_def nat_eq_iff)
  have rng: "\<And>z. in_range ?ps' z = in_range ps z" by (simp add: in_range_def)
  {
    assume "is_rep ?ps' y s"
    then show "is_rep ps y s"
    proof (induction rule: is_rep.induct)
      case (root y)
      then have "y \<noteq> x" using upd_x neq by auto
      with root show ?case using upd_o rng by (auto intro: is_rep.root)
    next
      case (step y s)
      show ?case
      proof (cases "y = x")
        case True
        with step.IH upd_x have "is_rep ps r s" by simp
        with rr have "s = r" using is_rep_det is_rep.root by blast
        with True xr show ?thesis by simp
      next
        case False
        with step upd_o rng show ?thesis by (auto intro: is_rep.step)
      qed
    qed
  }
  {
    assume "is_rep ps y s"
    then show "is_rep ?ps' y s"
    proof (induction rule: is_rep.induct)
      case (root y)
      then have "y \<noteq> x" using nx by auto
      with root show ?case using upd_o rng by (auto intro: is_rep.root)
    next
      case (step y s)
      show ?case
      proof (cases "y = x")
        case True
        from step.hyps have "is_rep ps y s" by (auto intro: is_rep.step)
        with True xr have sr: "s = r" using is_rep_det by blast
        have "is_rep ?ps' r r" using rr neq upd_o rng by (auto intro: is_rep.root)
        then have "is_rep ?ps' x r" using upd_x neq rx rng by (auto intro: is_rep.step)
        with True sr show ?thesis by simp
      next
        case False
        with step upd_o rng show ?thesis by (auto intro: is_rep.step)
      qed
    qed
  }
qed


lemma roots_is_rep: "roots ps = {x. is_rep ps x x}"
  by (auto simp: roots_def is_rep_self)

lemma Find_correct:
  assumes rk: "ranked (parent uf) (rank uf)"
  shows "in_range (parent uf) x \<Longrightarrow>
    \<exists>uf' r. Find uf x = Some (Inr (uf', r)) \<and> is_rep (parent uf) x r \<and>
      rank uf' = rank uf \<and> count uf' = count uf \<and>
      length (parent uf') = length (parent uf) \<and>
      ranked (parent uf') (rank uf') \<and>
      (\<forall>y s. is_rep (parent uf') y s \<longleftrightarrow> is_rep (parent uf) y s)"
proof (induction "nat (Max (set (rank uf)) - rank uf ! nat x)" arbitrary: x rule: less_induct)
  case less
  let ?ps = "parent uf" and ?rk = "rank uf"
  show ?case
  proof (cases "?ps ! nat x = x")
    case True
    with less.prems have "Find uf x = Some (Inr (uf, x))"
      by (subst Find.simps) simp
    moreover from True less.prems have "is_rep ?ps x x" by (rule_tac is_rep.root)
    ultimately show ?thesis using rk by blast
  next
    case False
    let ?p = "?ps ! nat x"
    from rk less.prems False have p: "in_range ?ps ?p" and lt: "?rk ! nat x < ?rk ! nat ?p"
      by (simp_all add: ranked_def)
    from rk p have "in_range ?rk ?p" by (simp add: ranked_def in_range_def)
    then have "?rk ! nat ?p \<le> Max (set ?rk)" by (rule rank_le_Max)
    with lt have "nat (Max (set ?rk) - ?rk ! nat ?p) < nat (Max (set ?rk) - ?rk ! nat x)" by simp
    from less.hyps[OF this p] obtain uf1 r where
      F: "Find uf ?p = Some (Inr (uf1, r))" and pr: "is_rep ?ps ?p r" and
      rk1: "rank uf1 = ?rk" and c1: "count uf1 = count uf" and
      len1: "length (parent uf1) = length ?ps" and
      ranked1: "ranked (parent uf1) (rank uf1)" and
      eq1: "\<forall>y s. is_rep (parent uf1) y s \<longleftrightarrow> is_rep ?ps y s"
      by blast
    let ?ps1 = "parent uf1"
    let ?ps2 = "?ps1[nat x := r]"
    let ?uf2 = "uf1\<lparr>parent := ?ps2\<rparr>"
    have xr: "is_rep ?ps x r" using less.prems False pr by (rule is_rep.step)
    have x1: "in_range ?ps1 x" using less.prems len1 by (simp add: in_range_def)
    have xr1: "is_rep ?ps1 x r" using xr eq1 by simp
    have "\<not> is_rep ?ps x x" using False by (simp add: is_rep_self)
    then have "\<not> is_rep ?ps1 x x" using eq1 by simp
    then have nx1: "?ps1 ! nat x \<noteq> x" using x1 by (simp add: is_rep_self)
    have res: "Find uf x = Some (Inr (?uf2, r))"
      using less.prems False F x1 in_range_nat[OF x1]
      by (subst Find.simps) (simp add: bnd_def assign_def index_def ret_def in_range_def)
    have eq2: "\<forall>y s. is_rep ?ps2 y s \<longleftrightarrow> is_rep ?ps y s"
      using compress_rep[OF xr1 nx1] eq1 by simp
    have rne: "r \<noteq> x" using is_rep_root[OF xr] False by auto
    have rr1: "in_range ?ps1 r" using is_rep_root[OF xr1] by simp
    have lt1: "rank uf1 ! nat x < rank uf1 ! nat r"
      using is_rep_rank[OF xr1 ranked1] rne by simp
    have ranked2: "ranked ?ps2 (rank uf1)"
      unfolding ranked_def
    proof (intro conjI allI impI)
      show "length (rank uf1) = length ?ps2" using ranked1 by (simp add: ranked_def)
    next
      fix y assume "in_range ?ps2 y"
      then have y: "in_range ?ps1 y" by (simp add: in_range_def)
      show "in_range ?ps2 (?ps2 ! nat y)"
      proof (cases "y = x")
        case True
        then show ?thesis using in_range_nat[OF x1] rr1 by (simp add: in_range_def)
      next
        case False
        then have "?ps2 ! nat y = ?ps1 ! nat y" using y x1 by (simp add: in_range_def nat_eq_iff)
        then show ?thesis using ranked1 y by (simp add: ranked_def in_range_def)
      qed
    next
      fix y assume "in_range ?ps2 y" and ne: "?ps2 ! nat y \<noteq> y"
      then have y: "in_range ?ps1 y" by (simp add: in_range_def)
      show "rank uf1 ! nat y < rank uf1 ! nat (?ps2 ! nat y)"
      proof (cases "y = x")
        case True
        then show ?thesis using in_range_nat[OF x1] lt1 by simp
      next
        case False
        then have "?ps2 ! nat y = ?ps1 ! nat y" using y x1 by (simp add: in_range_def nat_eq_iff)
        then show ?thesis using ranked1 y ne by (simp add: ranked_def)
      qed
    qed
    show ?thesis
      using res xr rk1 c1 len1 ranked2 eq2 by (intro exI[of _ ?uf2] exI[of _ r]) simp
  qed
qed


lemma same_set_rep: "is_rep ps x r \<Longrightarrow> same_set ps a x \<longleftrightarrow> is_rep ps a r"
  unfolding same_set_def using is_rep_det by blast

lemma same_set_rep2: "is_rep ps x r \<Longrightarrow> same_set ps x a \<longleftrightarrow> is_rep ps a r"
  unfolding same_set_def using is_rep_det by blast

lemma link_rep:
  assumes rx: "is_rep ps rx rx" and ry: "is_rep ps ry ry" and ne: "rx \<noteq> ry"
  shows "is_rep (ps[nat rx := ry]) y s \<longleftrightarrow>
         (\<exists>s0. is_rep ps y s0 \<and> s = (if s0 = rx then ry else s0))"
proof
  let ?ps' = "ps[nat rx := ry]"
  have irx: "in_range ps rx" and prx: "ps ! nat rx = rx" using rx by (simp_all add: is_rep_self)
  have iry: "in_range ps ry" and pry: "ps ! nat ry = ry" using ry by (simp_all add: is_rep_self)
  have upd_x: "?ps' ! nat rx = ry" using in_range_nat[OF irx] by simp
  have upd_o: "\<And>z. in_range ps z \<Longrightarrow> z \<noteq> rx \<Longrightarrow> ?ps' ! nat z = ps ! nat z"
    using irx by (simp add: in_range_def nat_eq_iff)
  have rng: "\<And>z. in_range ?ps' z = in_range ps z" by (simp add: in_range_def)
  {
    assume "is_rep ?ps' y s"
    then show "\<exists>s0. is_rep ps y s0 \<and> s = (if s0 = rx then ry else s0)"
    proof (induction rule: is_rep.induct)
      case (root y)
      then have "y \<noteq> rx" using upd_x ne by auto
      with root have "is_rep ps y y" using upd_o rng by (auto intro: is_rep.root)
      with \<open>y \<noteq> rx\<close> show ?case by auto
    next
      case (step y s)
      from step.IH obtain s0 where s0: "is_rep ps (?ps' ! nat y) s0" "s = (if s0 = rx then ry else s0)"
        by blast
      show ?case
      proof (cases "y = rx")
        case True
        with s0 upd_x have "is_rep ps ry s0" by simp
        with ry have "s0 = ry" using is_rep_det by blast
        with s0 ne have "s = ry" by simp
        with True rx show ?thesis by auto
      next
        case False
        with step.hyps upd_o rng have "in_range ps y" "ps ! nat y \<noteq> y" "?ps' ! nat y = ps ! nat y"
          by auto
        with s0 have "is_rep ps y s0" by (auto intro: is_rep.step)
        with s0 show ?thesis by blast
      qed
    qed
  }
  {
    assume "\<exists>s0. is_rep ps y s0 \<and> s = (if s0 = rx then ry else s0)"
    then obtain s0 where a: "is_rep ps y s0" and b: "s = (if s0 = rx then ry else s0)" by blast
    have yy: "is_rep ?ps' ry ry" using iry pry ne upd_o rng by (auto intro: is_rep.root)
    from a have "is_rep ?ps' y (if s0 = rx then ry else s0)"
    proof (induction rule: is_rep.induct)
      case (root y)
      show ?case
      proof (cases "y = rx")
        case True
        then show ?thesis using yy upd_x ne irx rng by (auto intro: is_rep.step)
      next
        case False
        with root show ?thesis using upd_o rng by (auto intro: is_rep.root)
      qed
    next
      case (step y s0)
      then have "y \<noteq> rx" using prx by auto
      with step show ?case using upd_o rng by (auto intro: is_rep.step)
    qed
    with b show "is_rep ?ps' y s" by simp
  }
qed

lemma link_same:
  assumes rx: "is_rep ps rx rx" and ry: "is_rep ps ry ry" and ne: "rx \<noteq> ry"
  shows "same_set (ps[nat rx := ry]) a c \<longleftrightarrow>
     same_set ps a c \<or> (is_rep ps a rx \<and> is_rep ps c ry) \<or> (is_rep ps a ry \<and> is_rep ps c rx)"
    (is "?L \<longleftrightarrow> ?R")
proof
  assume ?L
  then obtain sa sc where sa: "is_rep ps a sa" and sc: "is_rep ps c sc"
    and eq: "(if sa = rx then ry else sa) = (if sc = rx then ry else sc)"
    unfolding same_set_def link_rep[OF rx ry ne] by blast
  show ?R
  proof (cases "sa = sc")
    case True
    with sa sc show ?thesis unfolding same_set_def by blast
  next
    case False
    with eq have "(sa = rx \<and> sc = ry) \<or> (sa = ry \<and> sc = rx)" by (auto split: if_splits)
    with sa sc show ?thesis by blast
  qed
next
  assume ?R
  then consider (s) r where "is_rep ps a r" "is_rep ps c r"
    | (xy) "is_rep ps a rx" "is_rep ps c ry" | (yx) "is_rep ps a ry" "is_rep ps c rx"
    unfolding same_set_def by blast
  then show ?L
  proof cases
    case s
    then have "is_rep (ps[nat rx := ry]) a (if r = rx then ry else r)"
      "is_rep (ps[nat rx := ry]) c (if r = rx then ry else r)"
      unfolding link_rep[OF rx ry ne] by blast+
    then show ?thesis unfolding same_set_def by blast
  next
    case xy
    then have "is_rep (ps[nat rx := ry]) a ry" "is_rep (ps[nat rx := ry]) c ry"
      unfolding link_rep[OF rx ry ne] using ne by auto
    then show ?thesis unfolding same_set_def by blast
  next
    case yx
    then have "is_rep (ps[nat rx := ry]) a ry" "is_rep (ps[nat rx := ry]) c ry"
      unfolding link_rep[OF rx ry ne] using ne by auto
    then show ?thesis unfolding same_set_def by blast
  qed
qed

lemma finite_roots: "finite (roots ps)"
proof -
  have "roots ps \<subseteq> {0..<int (length ps)}" by (auto simp: roots_def in_range_def)
  then show ?thesis by (rule finite_subset) simp
qed

lemma link_roots:
  assumes rx: "is_rep ps rx rx" and ne: "rx \<noteq> ry"
  shows "roots (ps[nat rx := ry]) = roots ps - {rx}"
proof -
  have irx: "in_range ps rx" using rx by (simp add: is_rep_self)
  have upd_x: "ps[nat rx := ry] ! nat rx = ry" using in_range_nat[OF irx] by simp
  have upd_o: "\<And>z. in_range ps z \<Longrightarrow> z \<noteq> rx \<Longrightarrow> ps[nat rx := ry] ! nat z = ps ! nat z"
    using irx by (simp add: in_range_def nat_eq_iff)
  have rng: "\<And>z. in_range (ps[nat rx := ry]) z = in_range ps z" by (simp add: in_range_def)
  have "\<And>z. in_range ps z \<Longrightarrow> (ps[nat rx := ry] ! nat z = z) = (z \<noteq> rx \<and> ps ! nat z = z)"
    subgoal for z using upd_x upd_o[of z] ne by (cases "z = rx") auto
    done
  then show ?thesis
    unfolding roots_def using rng by auto
qed

lemma link_card:
  assumes rx: "is_rep ps rx rx" and ne: "rx \<noteq> ry"
  shows "int (card (roots (ps[nat rx := ry]))) = int (card (roots ps)) - 1"
proof -
  have "rx \<in> roots ps" using rx by (simp add: roots_is_rep)
  then have "card (roots ps - {rx}) = card (roots ps) - 1" "card (roots ps) > 0"
    using finite_roots[of ps] by (auto simp: card_gt_0_iff)
  then show ?thesis unfolding link_roots[OF rx ne] by simp
qed

lemma link_ranked:
  assumes rk: "ranked ps rk" and rx: "is_rep ps rx rx" and ry: "is_rep ps ry ry"
    and ne: "rx \<noteq> ry" and len: "length rk' = length rk"
    and same: "\<And>z. in_range ps z \<Longrightarrow> z \<noteq> ry \<Longrightarrow> rk' ! nat z = rk ! nat z"
    and mono: "rk ! nat ry \<le> rk' ! nat ry" and lt: "rk ! nat rx < rk' ! nat ry"
  shows "ranked (ps[nat rx := ry]) rk'"
  unfolding ranked_def
proof (intro conjI allI impI)
  let ?ps' = "ps[nat rx := ry]"
  have irx: "in_range ps rx" and prx: "ps ! nat rx = rx" using rx by (simp_all add: is_rep_self)
  have iry: "in_range ps ry" and pry: "ps ! nat ry = ry" using ry by (simp_all add: is_rep_self)
  have upd_x: "?ps' ! nat rx = ry" using in_range_nat[OF irx] by simp
  have upd_o: "\<And>z. in_range ps z \<Longrightarrow> z \<noteq> rx \<Longrightarrow> ?ps' ! nat z = ps ! nat z"
    using irx by (simp add: in_range_def nat_eq_iff)
  show "length rk' = length ?ps'" using len rk by (simp add: ranked_def)
  {
    fix z assume "in_range ?ps' z"
    then have z: "in_range ps z" by (simp add: in_range_def)
    show "in_range ?ps' (?ps' ! nat z)"
    proof (cases "z = rx")
      case True
      then show ?thesis using upd_x iry by (simp add: in_range_def)
    next
      case False
      then show ?thesis using upd_o[OF z] rk z by (simp add: ranked_def in_range_def)
    qed
  }
  {
    fix z assume "in_range ?ps' z" and nz: "?ps' ! nat z \<noteq> z"
    then have z: "in_range ps z" by (simp add: in_range_def)
    show "rk' ! nat z < rk' ! nat (?ps' ! nat z)"
    proof (cases "z = rx")
      case True
      then show ?thesis using upd_x same[OF irx ne] lt by simp
    next
      case False
      then have e: "?ps' ! nat z = ps ! nat z" using upd_o[OF z] by simp
      with nz have nz': "ps ! nat z \<noteq> z" by simp
      then have "z \<noteq> ry" using pry by auto
      then have 1: "rk' ! nat z = rk ! nat z" using same[OF z] by simp
      have 2: "rk ! nat z < rk ! nat (ps ! nat z)" and 3: "in_range ps (ps ! nat z)"
        using rk z nz' by (simp_all add: ranked_def)
      have "rk ! nat (ps ! nat z) \<le> rk' ! nat (ps ! nat z)"
        using same[OF 3] mono by (cases "ps ! nat z = ry") simp_all
      with 1 2 e show ?thesis by simp
    qed
  }
qed


lemma link_state:
  assumes rk: "ranked ps rk" and rx: "is_rep ps rx rx" and ry: "is_rep ps ry ry"
    and ne: "rx \<noteq> ry" and len: "length rk' = length rk"
    and same: "\<And>z. in_range ps z \<Longrightarrow> z \<noteq> ry \<Longrightarrow> rk' ! nat z = rk ! nat z"
    and mono: "rk ! nat ry \<le> rk' ! nat ry" and lt: "rk ! nat rx < rk' ! nat ry"
    and c: "c = int (card (roots ps))"
  shows "uf_inv \<lparr>parent = ps[nat rx := ry], rank = rk', count = c - 1\<rparr>"
  unfolding uf_inv_def
  using link_ranked[OF rk rx ry ne len same mono lt] link_card[OF rx ne] c by simp

lemma same_set_trans: "same_set ps a b \<Longrightarrow> same_set ps b c \<Longrightarrow> same_set ps a c"
  unfolding same_set_def using is_rep_det by blast

lemma same_set_sym: "same_set ps a b \<Longrightarrow> same_set ps b a"
  unfolding same_set_def by blast

lemma Union_correct:
  assumes inv: "uf_inv uf" and x: "in_range (parent uf) x" and y: "in_range (parent uf) y"
  shows "\<exists>uf' b. Union uf x y = Some (Inr (uf', b)) \<and> uf_inv uf' \<and>
      length (parent uf') = length (parent uf) \<and>
      b = (\<not> same_set (parent uf) x y) \<and>
      count uf' = (if b then count uf - 1 else count uf) \<and>
      (\<forall>a c. same_set (parent uf') a c \<longleftrightarrow>
         same_set (parent uf) a c \<or>
         (same_set (parent uf) a x \<and> same_set (parent uf) y c) \<or>
         (same_set (parent uf) a y \<and> same_set (parent uf) x c))"
proof -
  let ?ps = "parent uf"
  from inv have rk0: "ranked ?ps (rank uf)" and c0: "count uf = int (card (roots ?ps))"
    by (simp_all add: uf_inv_def)
  from Find_correct[OF rk0 x] obtain uf1 rX where
    F1: "Find uf x = Some (Inr (uf1, rX))" and xr: "is_rep ?ps x rX" and
    rk1: "rank uf1 = rank uf" and c1: "count uf1 = count uf" and
    len1: "length (parent uf1) = length ?ps" and
    ranked1: "ranked (parent uf1) (rank uf1)" and
    eq1: "\<forall>y s. is_rep (parent uf1) y s \<longleftrightarrow> is_rep ?ps y s"
    by blast
  have y1: "in_range (parent uf1) y" using y len1 by (simp add: in_range_def)
  from Find_correct[OF ranked1 y1] obtain uf2 rY where
    F2: "Find uf1 y = Some (Inr (uf2, rY))" and yr1: "is_rep (parent uf1) y rY" and
    rk2: "rank uf2 = rank uf1" and c2: "count uf2 = count uf1" and
    len2: "length (parent uf2) = length (parent uf1)" and
    ranked2: "ranked (parent uf2) (rank uf2)" and
    eq2: "\<forall>y s. is_rep (parent uf2) y s \<longleftrightarrow> is_rep (parent uf1) y s"
    by blast
  let ?ps2 = "parent uf2" and ?rk = "rank uf2"
  have eq: "\<And>y s. is_rep ?ps2 y s \<longleftrightarrow> is_rep ?ps y s" using eq1 eq2 by simp
  have yr: "is_rep ?ps y rY" using yr1 eq1 by simp
  have same_eq: "\<And>a c. same_set ?ps2 a c \<longleftrightarrow> same_set ?ps a c" by (simp add: same_set_def eq)
  have roots_eq: "roots ?ps2 = roots ?ps" by (simp add: roots_is_rep eq)
  have len: "length ?ps2 = length ?ps" using len1 len2 by simp
  have cnt: "count uf2 = int (card (roots ?ps2))" using c0 c1 c2 roots_eq by simp
  have sxy: "same_set ?ps x y \<longleftrightarrow> rX = rY"
    using xr yr is_rep_det unfolding same_set_def by blast
  show ?thesis
  proof (cases "rX = rY")
    case True
    have U: "Union uf x y = Some (Inr (uf2, False))"
      using F1 F2 True by (simp add: Union_def bnd_def ret_def)
    have inv2: "uf_inv uf2" using ranked2 cnt by (simp add: uf_inv_def)
    have "same_set ?ps x y" using sxy True by simp
    then have "\<And>a c. same_set ?ps a c \<longleftrightarrow> same_set ?ps a c \<or>
         (same_set ?ps a x \<and> same_set ?ps y c) \<or> (same_set ?ps a y \<and> same_set ?ps x c)"
      by (meson same_set_trans same_set_sym)
    then show ?thesis
      using U inv2 len sxy True c1 c2 same_eq
      by (intro exI[of _ uf2] exI[of _ False]) simp
  next
    case False
    have RX: "is_rep ?ps2 rX rX" using is_rep_idem[OF xr] eq by simp
    have RY: "is_rep ?ps2 rY rY" using is_rep_idem[OF yr] eq by simp
    have lrk: "length ?rk = length ?ps2" using ranked2 by (simp add: ranked_def)
    have iX: "in_range ?ps2 rX" and iY: "in_range ?ps2 rY"
      using RX RY by (simp_all add: is_rep_self)
    have iX': "in_range ?rk rX" and iY': "in_range ?rk rY"
      using iX iY lrk by (simp_all add: in_range_def)
    have ne': "rY \<noteq> rX" using False by simp
    have conn_xy: "\<And>a c. same_set (?ps2[nat rX := rY]) a c \<longleftrightarrow>
         same_set ?ps a c \<or> (same_set ?ps a x \<and> same_set ?ps y c) \<or>
         (same_set ?ps a y \<and> same_set ?ps x c)"
      unfolding link_same[OF RX RY False] same_eq eq
      using same_set_rep[OF xr] same_set_rep[OF yr] same_set_rep2[OF xr] same_set_rep2[OF yr]
      by simp
    have conn_yx: "\<And>a c. same_set (?ps2[nat rY := rX]) a c \<longleftrightarrow>
         same_set ?ps a c \<or> (same_set ?ps a x \<and> same_set ?ps y c) \<or>
         (same_set ?ps a y \<and> same_set ?ps x c)"
      unfolding link_same[OF RY RX ne'] same_eq eq
      using same_set_rep[OF xr] same_set_rep[OF yr] same_set_rep2[OF xr] same_set_rep2[OF yr]
      by auto
    consider (lt) "?rk ! nat rX < ?rk ! nat rY" | (gt) "?rk ! nat rX > ?rk ! nat rY"
      | (eq) "?rk ! nat rX = ?rk ! nat rY" by linarith
    then show ?thesis
    proof cases
      case lt
      let ?uf3 = "\<lparr>parent = ?ps2[nat rX := rY], rank = ?rk, count = count uf2 - 1\<rparr>"
      have U: "Union uf x y = Some (Inr (?uf3, True))"
        using F1 F2 False iX iY iX' iY' lt
        by (simp add: Union_def bnd_def ret_def index_def assign_def)
      have "uf_inv ?uf3"
        by (rule link_state[OF ranked2 RX RY False _ _ _ _ cnt]) (use lt in simp_all)
      then show ?thesis
        using U len sxy False c1 c2 conn_xy
        by (intro exI[of _ ?uf3] exI[of _ True]) simp
    next
      case gt
      let ?uf3 = "\<lparr>parent = ?ps2[nat rY := rX], rank = ?rk, count = count uf2 - 1\<rparr>"
      have U: "Union uf x y = Some (Inr (?uf3, True))"
        using F1 F2 False iX iY iX' iY' gt
        by (simp add: Union_def bnd_def ret_def index_def assign_def)
      have "uf_inv ?uf3"
        by (rule link_state[OF ranked2 RY RX ne' _ _ _ _ cnt]) (use gt in simp_all)
      then show ?thesis
        using U len sxy False c1 c2 conn_yx
        by (intro exI[of _ ?uf3] exI[of _ True]) simp
    next
      case eq
      let ?rk' = "?rk[nat rX := ?rk ! nat rX + 1]"
      let ?uf3 = "\<lparr>parent = ?ps2[nat rY := rX], rank = ?rk', count = count uf2 - 1\<rparr>"
      have U: "Union uf x y = Some (Inr (?uf3, True))"
        using F1 F2 False iX iY iX' iY' eq
        by (simp add: Union_def bnd_def ret_def index_def assign_def)
      have nX: "nat rX < length ?rk" using in_range_nat[OF iX'] .
      have "uf_inv ?uf3"
      proof (rule link_state[OF ranked2 RY RX ne' _ _ _ _ cnt])
        show "length ?rk' = length ?rk" by simp
        show "\<And>z. in_range ?ps2 z \<Longrightarrow> z \<noteq> rX \<Longrightarrow> ?rk' ! nat z = ?rk ! nat z"
          using iX by (simp add: in_range_def nat_eq_iff)
        show "?rk ! nat rX \<le> ?rk' ! nat rX" using nX by simp
        show "?rk ! nat rY < ?rk' ! nat rX" using nX eq by simp
      qed
      then show ?thesis
        using U len sxy False c1 c2 conn_yx
        by (intro exI[of _ ?uf3] exI[of _ True]) simp
    qed
  qed
qed




section \<open>Fresh structures, single calls and runs\<close>

lemma NewUnionFind_ok:
  assumes "0 \<le> n"
  shows "\<exists>uf0. NewUnionFind n = ret uf0 \<and> uf_inv uf0 \<and> int (length (parent uf0)) = n \<and>
           count uf0 = n \<and> (\<forall>a b. same_set (parent uf0) a b \<longleftrightarrow> 0 \<le> a \<and> a < n \<and> a = b)"
proof -
  let ?ps = "map int [0..<nat n]"
  let ?uf = "\<lparr>parent = ?ps, rank = replicate (nat n) 0, count = n\<rparr>"
  have N: "NewUnionFind n = ret ?uf" using assms by (simp add: NewUnionFind_def)
  have rng: "\<And>x. in_range ?ps x \<longleftrightarrow> 0 \<le> x \<and> x < n" using assms by (auto simp: in_range_def)
  have self: "\<And>x. 0 \<le> x \<Longrightarrow> x < n \<Longrightarrow> ?ps ! nat x = x"
  proof -
    fix x :: int assume "0 \<le> x" "x < n"
    then have "nat x < nat n" by simp
    with \<open>0 \<le> x\<close> show "?ps ! nat x = x" by simp
  qed
  have rk: "ranked ?ps (replicate (nat n) 0)"
    unfolding ranked_def rng using self by simp
  have "roots ?ps = {0..<n}"
  proof (rule set_eqI)
    fix x show "x \<in> roots ?ps \<longleftrightarrow> x \<in> {0..<n}"
      unfolding roots_def mem_Collect_eq rng using self[of x] by auto
  qed
  then have c: "int (card (roots ?ps)) = n" using assms by simp
  have rep: "\<And>a r. is_rep ?ps a r \<longleftrightarrow> 0 \<le> a \<and> a < n \<and> r = a"
  proof -
    fix a r
    show "is_rep ?ps a r \<longleftrightarrow> 0 \<le> a \<and> a < n \<and> r = a"
    proof
      assume "is_rep ?ps a r"
      then show "0 \<le> a \<and> a < n \<and> r = a"
      proof (cases rule: is_rep.cases)
        case root
        then show ?thesis unfolding rng by simp
      next
        case step
        then show ?thesis unfolding rng using self[of a] by simp
      qed
    next
      assume a: "0 \<le> a \<and> a < n \<and> r = a"
      then have "in_range ?ps a" "?ps ! nat a = a" unfolding rng using self[of a] by simp_all
      then have "is_rep ?ps a a" by (rule is_rep.root)
      with a show "is_rep ?ps a r" by simp
    qed
  qed
  have "\<forall>a b. same_set ?ps a b \<longleftrightarrow> 0 \<le> a \<and> a < n \<and> a = b"
    unfolding same_set_def rep by auto
  then show ?thesis using N rk c assms by (intro exI[of _ ?uf]) (simp add: uf_inv_def)
qed

lemma Find_inv:
  assumes inv: "uf_inv uf" and x: "in_range (parent uf) x"
  shows "\<exists>uf' r. Find uf x = ret (uf', r) \<and> is_rep (parent uf) x r \<and> uf_inv uf' \<and>
      length (parent uf') = length (parent uf) \<and> count uf' = count uf \<and>
      (\<forall>y s. is_rep (parent uf') y s \<longleftrightarrow> is_rep (parent uf) y s)"
proof -
  from inv have rk0: "ranked (parent uf) (rank uf)" and c0: "count uf = int (card (roots (parent uf)))"
    by (simp_all add: uf_inv_def)
  from Find_correct[OF rk0 x] obtain uf1 r where
    F1: "Find uf x = Some (Inr (uf1, r))" and xr: "is_rep (parent uf) x r" and
    c1: "count uf1 = count uf" and
    len1: "length (parent uf1) = length (parent uf)" and
    ranked1: "ranked (parent uf1) (rank uf1)" and
    eq1: "\<forall>y s. is_rep (parent uf1) y s \<longleftrightarrow> is_rep (parent uf) y s"
    by blast
  have "roots (parent uf1) = roots (parent uf)" by (simp add: roots_is_rep eq1)
  then have "uf_inv uf1" using ranked1 c0 c1 by (simp add: uf_inv_def)
  then show ?thesis using F1 xr len1 c1 eq1 unfolding ret_def by blast
qed

lemma Connected_correct:
  assumes inv: "uf_inv uf" and x: "in_range (parent uf) x" and y: "in_range (parent uf) y"
  shows "\<exists>uf'. Connected uf x y = ret (uf', same_set (parent uf) x y) \<and> uf_inv uf' \<and>
      length (parent uf') = length (parent uf) \<and> count uf' = count uf \<and>
      (\<forall>a s. is_rep (parent uf') a s \<longleftrightarrow> is_rep (parent uf) a s)"
proof -
  from Find_inv[OF inv x] obtain uf1 rX where
    F1: "Find uf x = ret (uf1, rX)" and xr: "is_rep (parent uf) x rX" and inv1: "uf_inv uf1" and
    len1: "length (parent uf1) = length (parent uf)" and c1: "count uf1 = count uf" and
    eq1: "\<forall>y s. is_rep (parent uf1) y s \<longleftrightarrow> is_rep (parent uf) y s"
    by blast
  have y1: "in_range (parent uf1) y" using y len1 by (simp add: in_range_def)
  from Find_inv[OF inv1 y1] obtain uf2 rY where
    F2: "Find uf1 y = ret (uf2, rY)" and yr1: "is_rep (parent uf1) y rY" and inv2: "uf_inv uf2" and
    len2: "length (parent uf2) = length (parent uf1)" and c2: "count uf2 = count uf1" and
    eq2: "\<forall>y s. is_rep (parent uf2) y s \<longleftrightarrow> is_rep (parent uf1) y s"
    by blast
  have yr: "is_rep (parent uf) y rY" using yr1 eq1 by simp
  have "same_set (parent uf) x y \<longleftrightarrow> rX = rY"
    using xr yr is_rep_det unfolding same_set_def by blast
  then have "Connected uf x y = ret (uf2, same_set (parent uf) x y)"
    using F1 F2 by (simp add: Connected_def bnd_def ret_def)
  then show ?thesis using inv2 len1 len2 c1 c2 eq1 eq2 by (intro exI[of _ uf2]) simp
qed

lemma same_set_cong:
  "(\<forall>a s. is_rep ps' a s \<longleftrightarrow> is_rep ps a s) \<Longrightarrow> same_set ps' a b \<longleftrightarrow> same_set ps a b"
  by (simp add: same_set_def)

lemma same_set_refl: "uf_inv uf \<Longrightarrow> in_range (parent uf) x \<Longrightarrow> same_set (parent uf) x x"
  unfolding same_set_def uf_inv_def using rep_exists by blast

lemma same_set_range: "same_set ps a b \<Longrightarrow> in_range ps a \<and> in_range ps b"
  unfolding same_set_def using is_rep_range by blast

lemma sized_range: "sized n uf \<Longrightarrow> in_range (parent uf) x \<longleftrightarrow> 0 \<le> x \<and> x < n"
  by (auto simp: sized_def in_range_def)

lemma exec_ok:
  assumes s: "sized n uf" and v: "valid_call n c"
  shows "\<exists>uf' r. exec uf c = ret (uf', r) \<and> sized n uf' \<and>
           count uf' = count uf - int (successful_unions [c] [r]) \<and>
           (\<forall>a b. same_set (parent uf) a b \<longrightarrow> same_set (parent uf') a b)"
proof (cases c)
  case (CallFind x)
  with s v have x: "in_range (parent uf) x" by (simp add: sized_range)
  from s have inv: "uf_inv uf" by (simp add: sized_def)
  from Find_inv[OF inv x] s CallFind show ?thesis
    by (auto simp: bnd_def ret_def sized_def same_set_def)
next
  case (CallUnion x y)
  with s v have x: "in_range (parent uf) x" and y: "in_range (parent uf) y"
    by (simp_all add: sized_range)
  from s have inv: "uf_inv uf" by (simp add: sized_def)
  from Union_correct[OF inv x y] obtain uf' b where
    U: "Union uf x y = Some (Inr (uf', b))" and inv': "uf_inv uf'" and
    len: "length (parent uf') = length (parent uf)" and
    c: "count uf' = (if b then count uf - 1 else count uf)" and
    conn: "\<forall>a c. same_set (parent uf') a c \<longleftrightarrow>
         same_set (parent uf) a c \<or>
         (same_set (parent uf) a x \<and> same_set (parent uf) y c) \<or>
         (same_set (parent uf) a y \<and> same_set (parent uf) x c)"
    by blast
  have "exec uf c = ret (uf', Answer b)" using U CallUnion by (simp add: bnd_def ret_def)
  moreover have "sized n uf'" using inv' len s by (simp add: sized_def)
  moreover have "count uf' = count uf - int (successful_unions [c] [Answer b])"
    using c CallUnion by (cases b) simp_all
  ultimately show ?thesis using conn by blast
next
  case (CallConnected x y)
  with s v have x: "in_range (parent uf) x" and y: "in_range (parent uf) y"
    by (simp_all add: sized_range)
  from s have inv: "uf_inv uf" by (simp add: sized_def)
  from Connected_correct[OF inv x y] s CallConnected show ?thesis
    by (auto simp: bnd_def ret_def sized_def same_set_def)
qed

lemma successful_unions_Cons:
  "successful_unions (c # cs) (r # rs) = successful_unions [c] [r] + successful_unions cs rs"
  by (cases "(c # cs, r # rs)" rule: successful_unions.cases) auto

lemma run_ok:
  assumes "sized n uf" and "\<forall>c\<in>set cs. valid_call n c"
  shows "\<exists>uf' rs. run uf cs = ret (uf', rs) \<and> sized n uf' \<and> length rs = length cs \<and>
           count uf' = count uf - int (successful_unions cs rs)"
  using assms
proof (induction cs arbitrary: uf)
  case Nil
  then show ?case by auto
next
  case (Cons c cs)
  from Cons.prems have v: "valid_call n c" and vs: "\<forall>c\<in>set cs. valid_call n c" by simp_all
  from exec_ok[OF Cons.prems(1) v] obtain uf1 r where
    E: "exec uf c = ret (uf1, r)" and s1: "sized n uf1" and
    c1: "count uf1 = count uf - int (successful_unions [c] [r])" by blast
  from Cons.IH[OF s1 vs] obtain uf2 rs where
    R: "run uf1 cs = ret (uf2, rs)" and s2: "sized n uf2" and l: "length rs = length cs" and
    c2: "count uf2 = count uf1 - int (successful_unions cs rs)" by blast
  have "run uf (c # cs) = ret (uf2, r # rs)" using E R by (simp add: bnd_def ret_def)
  moreover have "count uf2 = count uf - int (successful_unions (c # cs) (r # rs))"
    using c1 c2 by (subst successful_unions_Cons) simp
  ultimately show ?case using s2 l by (intro exI[of _ uf2] exI[of _ "r # rs"]) simp
qed

lemma reachable_sized: "reachable n uf \<Longrightarrow> sized n uf \<and> 0 \<le> n"
proof -
  assume "reachable n uf"
  then obtain cs uf0 rs where v: "\<forall>c\<in>set cs. valid_call n c" and
    N: "NewUnionFind n = ret uf0" and R: "run uf0 cs = ret (uf, rs)"
    unfolding reachable_def by blast
  from N have n: "0 \<le> n" by (auto simp: NewUnionFind_def ret_def throw_def split: if_splits)
  from NewUnionFind_ok[OF n] N have "sized n uf0" by (auto simp: sized_def ret_def)
  from run_ok[OF this v] R show ?thesis using n by (auto simp: ret_def)
qed


lemma reachableI:
  "\<forall>c\<in>set cs. valid_call n c \<Longrightarrow> NewUnionFind n = ret uf0 \<Longrightarrow> run uf0 cs = ret (uf, rs) \<Longrightarrow>
   reachable n uf"
  unfolding reachable_def by blast

lemma Find_out_of_range: "\<not> in_range (parent uf) x \<Longrightarrow> Find uf x = throw IndexOutOfRange"
  by (subst Find.simps) (simp add: throw_def)

lemma find_all_ok:
  assumes "uf_inv uf" and "\<forall>x\<in>set xs. in_range (parent uf) x"
  shows "\<exists>uf' rs. find_all uf xs = ret (uf', rs) \<and> list_all2 (is_rep (parent uf)) xs rs"
  using assms
proof (induction xs arbitrary: uf)
  case Nil
  then show ?case by auto
next
  case (Cons x xs)
  from Cons.prems have x: "in_range (parent uf) x" by simp
  from Find_inv[OF Cons.prems(1) x] obtain uf1 r where
    F: "Find uf x = ret (uf1, r)" and xr: "is_rep (parent uf) x r" and inv1: "uf_inv uf1" and
    len1: "length (parent uf1) = length (parent uf)" and
    eq1: "\<forall>y s. is_rep (parent uf1) y s \<longleftrightarrow> is_rep (parent uf) y s"
    by blast
  have "\<forall>x\<in>set xs. in_range (parent uf1) x" using Cons.prems(2) len1 by (simp add: in_range_def)
  from Cons.IH[OF inv1 this] obtain uf2 rs where
    A: "find_all uf1 xs = ret (uf2, rs)" and L: "list_all2 (is_rep (parent uf1)) xs rs" by blast
  have "is_rep (parent uf1) = is_rep (parent uf)" using eq1 by (intro ext) simp
  with L have L': "list_all2 (is_rep (parent uf)) xs rs" by simp
  have "find_all uf (x # xs) = ret (uf2, r # rs)" using F A by (simp add: bnd_def ret_def)
  with xr L' show ?case by (intro exI[of _ uf2] exI[of _ "r # rs"]) simp
qed

lemma all_reps_roots:
  assumes L: "list_all2 (is_rep ps) xs rs" and all: "set xs = {x. in_range ps x}"
  shows "set rs = roots ps"
proof (intro set_eqI iffI)
  fix r assume "r \<in> set rs"
  then obtain i where i: "i < length rs" "rs ! i = r" by (auto simp: in_set_conv_nth)
  with L have "is_rep ps (xs ! i) r" by (auto dest: list_all2_nthD2)
  then show "r \<in> roots ps" using is_rep_idem by (simp add: roots_is_rep)
next
  fix r assume r: "r \<in> roots ps"
  then have rr: "is_rep ps r r" by (simp add: roots_is_rep)
  from r all have "r \<in> set xs" by (simp add: roots_def)
  then obtain i where i: "i < length xs" "xs ! i = r" by (auto simp: in_set_conv_nth)
  with L have "is_rep ps r (rs ! i)" by (auto dest: list_all2_nthD)
  with rr have "rs ! i = r" using is_rep_det by blast
  moreover have "i < length rs" using i L by (simp add: list_all2_lengthD)
  ultimately show "r \<in> set rs" by (auto simp: in_set_conv_nth)
qed

lemma funpow_reaches_rep:
  "is_rep ps x r \<Longrightarrow> \<exists>k. ((\<lambda>j. ps ! nat j) ^^ k) x = r"
proof (induction rule: is_rep.induct)
  case (root x)
  have "((\<lambda>j. ps ! nat j) ^^ 0) x = x" by simp
  then show ?case by blast
next
  case (step x r)
  then obtain k where "((\<lambda>j. ps ! nat j) ^^ k) (ps ! nat x) = r" by blast
  then have "((\<lambda>j. ps ! nat j) ^^ Suc k) x = r" by (simp only: funpow_Suc_right o_apply)
  then show ?case by blast
qed

lemma funpow_rank_grows:
  assumes rk: "ranked ps rk" and x: "in_range ps x" and nx: "ps ! nat x \<noteq> x"
  shows "0 < k \<Longrightarrow> in_range ps (((\<lambda>j. ps ! nat j) ^^ k) x) \<and>
                   rk ! nat x < rk ! nat (((\<lambda>j. ps ! nat j) ^^ k) x)"
proof (induction k)
  case 0
  then show ?case by simp
next
  case (Suc k)
  show ?case
  proof (cases "k = 0")
    case True
    then show ?thesis using rk x nx by (simp add: ranked_def)
  next
    case False
    let ?z = "((\<lambda>j. ps ! nat j) ^^ k) x"
    from False Suc.IH have z: "in_range ps ?z" and lt: "rk ! nat x < rk ! nat ?z" by simp_all
    from rk z have 1: "in_range ps (ps ! nat ?z)" and
      2: "ps ! nat ?z \<noteq> ?z \<longrightarrow> rk ! nat ?z < rk ! nat (ps ! nat ?z)"
      by (simp_all add: ranked_def)
    have "rk ! nat x < rk ! nat (ps ! nat ?z)"
      using lt 2 by (cases "ps ! nat ?z = ?z") auto
    with 1 show ?thesis by simp
  qed
qed

section \<open>The claims about the structure\<close>

text \<open>
  Claim C1. For every \<open>n \<ge> 0\<close> and every sequence of calls on valid indices issued to
  a structure made by \<^verbatim>\<open>NewUnionFind(n)\<close>, the run returns, and afterwards \<^verbatim>\<open>Count()\<close>
  is \<open>n\<close> minus the number of \<^verbatim>\<open>Union\<close> calls that returned true; it is also the number
  of distinct roots that \<^verbatim>\<open>Find\<close> returns when called on all \<open>n\<close> elements.
\<close>

theorem count_tracks_unions:
  assumes "0 \<le> n" and "\<forall>c\<in>set cs. valid_call n c"
  shows "\<exists>uf0 uf rs uf' rts.
           NewUnionFind n = ret uf0 \<and> run uf0 cs = ret (uf, rs) \<and>
           Count uf = n - int (successful_unions cs rs) \<and>
           find_all uf (map int [0..<nat n]) = ret (uf', rts) \<and>
           Count uf = int (card (set rts))"
proof -
  from NewUnionFind_ok[OF assms(1)] obtain uf0 where
    N: "NewUnionFind n = ret uf0" and inv0: "uf_inv uf0" and
    len0: "int (length (parent uf0)) = n" and c0: "count uf0 = n" by blast
  have s0: "sized n uf0" using inv0 len0 by (simp add: sized_def)
  from run_ok[OF s0 assms(2)] obtain uf rs where
    R: "run uf0 cs = ret (uf, rs)" and s: "sized n uf" and
    c: "count uf = count uf0 - int (successful_unions cs rs)" by blast
  from s have inv: "uf_inv uf" by (simp add: sized_def)
  have "set (map int [0..<nat n]) = {0..<n}"
    using assms(1) by (simp add: image_int_atLeastLessThan)
  also have "\<dots> = {x. in_range (parent uf) x}"
    unfolding sized_range[OF s] by auto
  finally have rng: "set (map int [0..<nat n]) = {x. in_range (parent uf) x}" .
  then have "\<forall>x\<in>set (map int [0..<nat n]). in_range (parent uf) x" by blast
  from find_all_ok[OF inv this] obtain uf' rts where
    A: "find_all uf (map int [0..<nat n]) = ret (uf', rts)" and
    L: "list_all2 (is_rep (parent uf)) (map int [0..<nat n]) rts" by blast
  have "set rts = roots (parent uf)" using all_reps_roots[OF L rng] .
  then have 1: "Count uf = int (card (set rts))" using inv by (simp add: uf_inv_def Count_def)
  have 2: "Count uf = n - int (successful_unions cs rs)" using c c0 by (simp add: Count_def)
  show ?thesis
    by (intro exI[of _ uf0] exI[of _ uf] exI[of _ rs] exI[of _ uf'] exI[of _ rts] conjI)
       (fact N R A 1 2)+
qed


theorem count_tracks_unions_witness:
  "(0::int) \<le> 3 \<and> list_all (valid_call 3) [CallUnion 0 1, CallUnion 1 0, CallUnion 1 2] \<and>
   (\<exists>uf0 uf rs uf' rts.
      NewUnionFind 3 = ret uf0 \<and>
      run uf0 [CallUnion 0 1, CallUnion 1 0, CallUnion 1 2] = ret (uf, rs) \<and>
      Count uf = 3 - int (successful_unions [CallUnion 0 1, CallUnion 1 0, CallUnion 1 2] rs) \<and>
      find_all uf (map int [0..<nat 3]) = ret (uf', rts) \<and>
      Count uf = int (card (set rts)))"
proof -
  have h1: "(0::int) \<le> 3" by simp
  have h2: "\<forall>c\<in>set [CallUnion 0 1, CallUnion 1 0, CallUnion 1 2]. valid_call 3 c" by simp
  have h3: "list_all (valid_call 3) [CallUnion 0 1, CallUnion 1 0, CallUnion 1 2]" by simp
  from count_tracks_unions[OF h1 h2] h1 h3 show ?thesis by blast
qed


text \<open>
  Claim C9. In a structure for \<open>n\<close> elements, an index \<open>x\<close> outside \<open>[0, n)\<close> makes
  \<^verbatim>\<open>Find(x)\<close>, \<^verbatim>\<open>Union(x, y)\<close> and \<^verbatim>\<open>Connected(x, y)\<close> panic with an index-out-of-range
  error, whatever \<open>y\<close> is; the same holds when the bad index is the second argument.
  The panic is the result of the call: nothing clamps the index or recovers.
\<close>

theorem out_of_range_panics:
  assumes "reachable n uf" and "x < 0 \<or> n \<le> x"
  shows "Find uf x = throw IndexOutOfRange \<and>
         Union uf x y = throw IndexOutOfRange \<and>
         Connected uf x y = throw IndexOutOfRange \<and>
         Union uf y x = throw IndexOutOfRange \<and>
         Connected uf y x = throw IndexOutOfRange"
proof -
  from reachable_sized[OF assms(1)] have s: "sized n uf" by simp
  then have inv: "uf_inv uf" by (simp add: sized_def)
  have nx: "\<not> in_range (parent uf) x" unfolding sized_range[OF s] using assms(2) by auto
  have F: "Find uf x = throw IndexOutOfRange" using nx by (rule Find_out_of_range)
  have U1: "Union uf x y = throw IndexOutOfRange"
    using F by (simp add: Union_def bnd_def throw_def)
  have C1: "Connected uf x y = throw IndexOutOfRange"
    using F by (simp add: Connected_def bnd_def throw_def)
  have "Union uf y x = throw IndexOutOfRange \<and> Connected uf y x = throw IndexOutOfRange"
  proof (cases "in_range (parent uf) y")
    case True
    from Find_inv[OF inv True] obtain uf1 r where
      Fy: "Find uf y = ret (uf1, r)" and len: "length (parent uf1) = length (parent uf)" by blast
    have "\<not> in_range (parent uf1) x" using nx len by (simp add: in_range_def)
    then have "Find uf1 x = throw IndexOutOfRange" by (rule Find_out_of_range)
    with Fy show ?thesis by (simp add: Union_def Connected_def bnd_def throw_def ret_def)
  next
    case False
    then have "Find uf y = throw IndexOutOfRange" by (rule Find_out_of_range)
    then show ?thesis by (simp add: Union_def Connected_def bnd_def throw_def)
  qed
  with F U1 C1 show ?thesis by simp
qed

lemma new3: "NewUnionFind 3 = ret \<lparr>parent = [0, 1, 2], rank = [0, 0, 0], count = 3\<rparr>"
  by code_simp

lemma run3: "run \<lparr>parent = [0, 1, 2], rank = [0, 0, 0], count = 3\<rparr> [CallUnion 0 1, CallUnion 2 1] =
    ret (\<lparr>parent = [0, 0, 0], rank = [1, 0, 0], count = 1\<rparr>, [Answer True, Answer True])"
  by code_simp

lemma reachable3: "reachable 3 \<lparr>parent = [0, 0, 0], rank = [1, 0, 0], count = 1\<rparr>"
  by (rule reachableI[OF _ new3 run3]) simp

lemma run3a: "run \<lparr>parent = [0, 1, 2], rank = [0, 0, 0], count = 3\<rparr> [CallUnion 0 1] =
    ret (\<lparr>parent = [0, 0, 2], rank = [1, 0, 0], count = 2\<rparr>, [Answer True])"
  by code_simp

lemma reachable3a: "reachable 3 \<lparr>parent = [0, 0, 2], rank = [1, 0, 0], count = 2\<rparr>"
  by (rule reachableI[OF _ new3 run3a]) simp

theorem out_of_range_panics_witness:
  "reachable 3 \<lparr>parent = [0, 0, 0], rank = [1, 0, 0], count = 1\<rparr> \<and> (3::int) \<le> 3 \<and>
   Find \<lparr>parent = [0, 0, 0], rank = [1, 0, 0], count = 1\<rparr> 3 = throw IndexOutOfRange \<and>
   Union \<lparr>parent = [0, 0, 0], rank = [1, 0, 0], count = 1\<rparr> 3 1 = throw IndexOutOfRange \<and>
   Connected \<lparr>parent = [0, 0, 0], rank = [1, 0, 0], count = 1\<rparr> 1 3 = throw IndexOutOfRange"
  using out_of_range_panics[OF reachable3, of 3 1] reachable3 by simp

text \<open>
  Claim C5. In a reachable state, when \<^verbatim>\<open>Connected(x, y)\<close> returns true for valid \<open>x\<close>
  and \<open>y\<close>, \<^verbatim>\<open>Union(x, y)\<close> returns the boolean false (no panic) and \<^verbatim>\<open>Count()\<close> keeps its
  value; this holds both from the state before the query and from the state the query
  leaves behind.
\<close>

theorem Union_of_connected_is_noop:
  assumes "reachable n uf" and "0 \<le> x" "x < n" "0 \<le> y" "y < n"
    and "Connected uf x y = ret (uf1, True)"
  shows "(\<exists>uf2. Union uf x y = ret (uf2, False) \<and> Count uf2 = Count uf) \<and>
         (\<exists>uf3. Union uf1 x y = ret (uf3, False) \<and> Count uf3 = Count uf)"
proof -
  from reachable_sized[OF assms(1)] have s: "sized n uf" by simp
  then have inv: "uf_inv uf" by (simp add: sized_def)
  have x: "in_range (parent uf) x" and y: "in_range (parent uf) y"
    using assms(2-5) sized_range[OF s] by simp_all
  from Connected_correct[OF inv x y] obtain u where
    C: "Connected uf x y = ret (u, same_set (parent uf) x y)" and invu: "uf_inv u" and
    lenu: "length (parent u) = length (parent uf)" and cu: "count u = count uf" and
    equ: "\<forall>a s. is_rep (parent u) a s \<longleftrightarrow> is_rep (parent uf) a s"
    by blast
  from C assms(6) have u: "u = uf1" and same: "same_set (parent uf) x y"
    by (simp_all add: ret_def)
  note inv1 = invu[unfolded u] and len1 = lenu[unfolded u] and c1 = cu[unfolded u]
    and eq1 = equ[unfolded u]
  from Union_correct[OF inv x y] obtain uf2 b where
    U: "Union uf x y = Some (Inr (uf2, b))" and b: "b = (\<not> same_set (parent uf) x y)" and
    c2: "count uf2 = (if b then count uf - 1 else count uf)"
    by blast
  have A: "\<exists>uf2. Union uf x y = ret (uf2, False) \<and> Count uf2 = Count uf"
    using U b c2 same by (intro exI[of _ uf2]) (simp add: ret_def Count_def)
  have x1: "in_range (parent uf1) x" and y1: "in_range (parent uf1) y"
    using x y len1 by (simp_all add: in_range_def)
  have same1: "same_set (parent uf1) x y" using same eq1 by (simp add: same_set_def)
  from Union_correct[OF inv1 x1 y1] obtain uf3 b' where
    U': "Union uf1 x y = Some (Inr (uf3, b'))" and b': "b' = (\<not> same_set (parent uf1) x y)" and
    c3: "count uf3 = (if b' then count uf1 - 1 else count uf1)"
    by blast
  have B: "\<exists>uf3. Union uf1 x y = ret (uf3, False) \<and> Count uf3 = Count uf"
    using U' b' c3 same1 c1 by (intro exI[of _ uf3]) (simp add: ret_def Count_def)
  from A B show ?thesis by simp
qed

lemma conn3: "Connected \<lparr>parent = [0, 0, 0], rank = [1, 0, 0], count = 1\<rparr> 1 2 =
    ret (\<lparr>parent = [0, 0, 0], rank = [1, 0, 0], count = 1\<rparr>, True)"
  by code_simp

theorem Union_of_connected_is_noop_witness:
  "reachable 3 \<lparr>parent = [0, 0, 0], rank = [1, 0, 0], count = 1\<rparr> \<and>
   Connected \<lparr>parent = [0, 0, 0], rank = [1, 0, 0], count = 1\<rparr> 1 2 =
     ret (\<lparr>parent = [0, 0, 0], rank = [1, 0, 0], count = 1\<rparr>, True) \<and>
   (\<exists>uf2. Union \<lparr>parent = [0, 0, 0], rank = [1, 0, 0], count = 1\<rparr> 1 2 = ret (uf2, False) \<and>
      Count uf2 = 1)"
  using Union_of_connected_is_noop[OF reachable3 _ _ _ _ conn3] reachable3 conn3
  by (simp add: Count_def)


lemma Connected_value:
  assumes inv: "uf_inv uf" and x: "in_range (parent uf) x" and y: "in_range (parent uf) y"
  shows "\<exists>u. Connected uf x y = ret (u, same_set (parent uf) x y) \<and> uf_inv u \<and>
    length (parent u) = length (parent uf) \<and>
    (\<forall>a b. same_set (parent u) a b \<longleftrightarrow> same_set (parent uf) a b)"
proof -
  from Connected_correct[OF inv x y] obtain u where
    C: "Connected uf x y = ret (u, same_set (parent uf) x y)" and invu: "uf_inv u" and
    lenu: "length (parent u) = length (parent uf)" and
    equ: "\<forall>a s. is_rep (parent u) a s \<longleftrightarrow> is_rep (parent uf) a s"
    by blast
  have "\<forall>a b. same_set (parent u) a b \<longleftrightarrow> same_set (parent uf) a b"
    using equ by (simp add: same_set_def)
  with C invu lenu show ?thesis by blast
qed

text \<open>
  Claim C2. In every reachable state \<^verbatim>\<open>Connected\<close> is an equivalence on the elements
  \<open>0..n-1\<close>: \<^verbatim>\<open>Connected(x, x)\<close> returns true, \<^verbatim>\<open>Connected(x, y)\<close> and \<^verbatim>\<open>Connected(y, x)\<close>
  return the same value, and when \<^verbatim>\<open>Connected(x, y)\<close> and \<^verbatim>\<open>Connected(y, z)\<close> return true
  so does \<^verbatim>\<open>Connected(x, z)\<close>. Transitivity holds for three queries asked of the same
  state and for three queries asked one after the other, each on the state the one
  before left behind (path compression has changed the parent array by then).
\<close>

theorem Connected_is_equivalence:
  assumes "reachable n uf" and "0 \<le> x" "x < n" "0 \<le> y" "y < n" "0 \<le> z" "z < n"
  shows "(\<exists>u. Connected uf x x = ret (u, True)) \<and>
         (\<exists>u1 u2 b. Connected uf x y = ret (u1, b) \<and> Connected uf y x = ret (u2, b)) \<and>
         (\<exists>u1 u2 u3 b1 b2 b3. Connected uf x y = ret (u1, b1) \<and>
            Connected uf y z = ret (u2, b2) \<and> Connected uf x z = ret (u3, b3) \<and>
            (b1 \<and> b2 \<longrightarrow> b3)) \<and>
         (\<exists>u1 u2 u3 b1 b2 b3. Connected uf x y = ret (u1, b1) \<and>
            Connected u1 y z = ret (u2, b2) \<and> Connected u2 x z = ret (u3, b3) \<and>
            (b1 \<and> b2 \<longrightarrow> b3))"
proof -
  from reachable_sized[OF assms(1)] have s: "sized n uf" by simp
  then have inv: "uf_inv uf" by (simp add: sized_def)
  let ?S = "same_set (parent uf)"
  have x: "in_range (parent uf) x" and y: "in_range (parent uf) y" and z: "in_range (parent uf) z"
    unfolding sized_range[OF s] using assms(2-7) by simp_all
  have tr: "?S x y \<and> ?S y z \<longrightarrow> ?S x z" using same_set_trans by blast
  have sy: "?S y x = ?S x y" using same_set_sym by blast
  obtain uxx where xx: "Connected uf x x = ret (uxx, ?S x x)"
    using Connected_value[OF inv x x] by blast
  obtain uxy where xy: "Connected uf x y = ret (uxy, ?S x y)" and invxy: "uf_inv uxy"
    and lenxy: "length (parent uxy) = length (parent uf)"
    and eqxy: "\<forall>a b. same_set (parent uxy) a b \<longleftrightarrow> ?S a b"
    using Connected_value[OF inv x y] by blast
  obtain uyx where yx: "Connected uf y x = ret (uyx, ?S y x)"
    using Connected_value[OF inv y x] by blast
  obtain uyz where yz: "Connected uf y z = ret (uyz, ?S y z)"
    using Connected_value[OF inv y z] by blast
  obtain uxz where xz: "Connected uf x z = ret (uxz, ?S x z)"
    using Connected_value[OF inv x z] by blast
  have y1: "in_range (parent uxy) y" and z1: "in_range (parent uxy) z" and
    x1: "in_range (parent uxy) x"
    using x y z lenxy by (simp_all add: in_range_def)
  obtain v2 where yz': "Connected uxy y z = ret (v2, same_set (parent uxy) y z)"
    and inv2: "uf_inv v2" and len2: "length (parent v2) = length (parent uxy)"
    and eq2: "\<forall>a b. same_set (parent v2) a b \<longleftrightarrow> same_set (parent uxy) a b"
    using Connected_value[OF invxy y1 z1] by blast
  have x2: "in_range (parent v2) x" and z2: "in_range (parent v2) z"
    using x1 z1 len2 by (simp_all add: in_range_def)
  obtain v3 where xz': "Connected v2 x z = ret (v3, same_set (parent v2) x z)"
    using Connected_value[OF inv2 x2 z2] by blast
  have A: "\<exists>u. Connected uf x x = ret (u, True)"
    using xx same_set_refl[OF inv x] by (intro exI[of _ uxx]) simp
  have B: "\<exists>u1 u2 b. Connected uf x y = ret (u1, b) \<and> Connected uf y x = ret (u2, b)"
    using xy yx sy by (intro exI[of _ uxy] exI[of _ uyx] exI[of _ "?S x y"]) simp
  have C: "\<exists>u1 u2 u3 b1 b2 b3. Connected uf x y = ret (u1, b1) \<and>
            Connected uf y z = ret (u2, b2) \<and> Connected uf x z = ret (u3, b3) \<and>
            (b1 \<and> b2 \<longrightarrow> b3)"
    using xy yz xz tr
    by (intro exI[of _ uxy] exI[of _ uyz] exI[of _ uxz] exI[of _ "?S x y"]
          exI[of _ "?S y z"] exI[of _ "?S x z"]) simp
  have D: "\<exists>u1 u2 u3 b1 b2 b3. Connected uf x y = ret (u1, b1) \<and>
            Connected u1 y z = ret (u2, b2) \<and> Connected u2 x z = ret (u3, b3) \<and>
            (b1 \<and> b2 \<longrightarrow> b3)"
    using xy yz' xz' tr eq2 eqxy
    by (intro exI[of _ uxy] exI[of _ v2] exI[of _ v3] exI[of _ "?S x y"]
          exI[of _ "?S y z"] exI[of _ "?S x z"]) simp
  from A B C D show ?thesis by (intro conjI)
qed

theorem Connected_is_equivalence_witness:
  "reachable 3 \<lparr>parent = [0, 0, 0], rank = [1, 0, 0], count = 1\<rparr> \<and>
   (\<exists>u. Connected \<lparr>parent = [0, 0, 0], rank = [1, 0, 0], count = 1\<rparr> 0 0 = ret (u, True)) \<and>
   (\<exists>u1 u2 u3. Connected \<lparr>parent = [0, 0, 0], rank = [1, 0, 0], count = 1\<rparr> 0 1 = ret (u1, True) \<and>
      Connected u1 1 2 = ret (u2, True) \<and> Connected u2 0 2 = ret (u3, True))"
proof -
  let ?uf = "\<lparr>parent = [0, 0, 0], rank = [1, 0, 0], count = 1\<rparr>"
  have t: "(\<exists>u. Connected ?uf 0 0 = ret (u, True)) \<and>
         (\<exists>u1 u2 b. Connected ?uf 0 1 = ret (u1, b) \<and> Connected ?uf 1 0 = ret (u2, b)) \<and>
         (\<exists>u1 u2 u3 b1 b2 b3. Connected ?uf 0 1 = ret (u1, b1) \<and>
            Connected ?uf 1 2 = ret (u2, b2) \<and> Connected ?uf 0 2 = ret (u3, b3) \<and>
            (b1 \<and> b2 \<longrightarrow> b3)) \<and>
         (\<exists>u1 u2 u3 b1 b2 b3. Connected ?uf 0 1 = ret (u1, b1) \<and>
            Connected u1 1 2 = ret (u2, b2) \<and> Connected u2 0 2 = ret (u3, b3) \<and>
            (b1 \<and> b2 \<longrightarrow> b3))"
    by (rule Connected_is_equivalence[OF reachable3]) simp_all
  have c: "Connected ?uf 0 1 = ret (?uf, True)" "Connected ?uf 1 2 = ret (?uf, True)"
    by code_simp+
  from t obtain u1 u2 u3 b1 b2 b3 where
    q: "Connected ?uf 0 1 = ret (u1, b1)" "Connected u1 1 2 = ret (u2, b2)"
       "Connected u2 0 2 = ret (u3, b3)" "b1 \<and> b2 \<longrightarrow> b3"
    by blast
  from q(1) c(1) have u1: "u1 = ?uf" "b1" by (simp_all add: ret_def)
  from q(2) c(2) u1 have "b2" by (simp add: ret_def)
  with q u1 have "Connected ?uf 0 1 = ret (u1, True) \<and> Connected u1 1 2 = ret (u2, True) \<and>
      Connected u2 0 2 = ret (u3, True)" by simp
  then have "\<exists>u1 u2 u3. Connected ?uf 0 1 = ret (u1, True) \<and>
      Connected u1 1 2 = ret (u2, True) \<and> Connected u2 0 2 = ret (u3, True)" by blast
  with reachable3 t show ?thesis by blast
qed

text \<open>
  Claim C4. In every reachable state an element \<open>i\<close> satisfies \<^verbatim>\<open>parent[i] == i\<close> exactly
  when it is a root, that is when \<^verbatim>\<open>Find(i)\<close> returns \<open>i\<close> itself; following the parent
  pointers from \<open>i\<close> reaches such a root after finitely many steps; no element other than
  a root comes back to itself along the parent pointers; and \<^verbatim>\<open>Find(i)\<close> returns (a root).
\<close>

theorem parent_pointers_form_forest:
  assumes "reachable n uf" and "0 \<le> i" "i < n"
  shows "(parent uf ! nat i = i \<longleftrightarrow> (\<exists>u. Find uf i = ret (u, i))) \<and>
         (\<exists>k r. ((\<lambda>j. parent uf ! nat j) ^^ k) i = r \<and> in_range (parent uf) r \<and>
                parent uf ! nat r = r) \<and>
         (parent uf ! nat i \<noteq> i \<longrightarrow> (\<forall>k>0. ((\<lambda>j. parent uf ! nat j) ^^ k) i \<noteq> i)) \<and>
         (\<exists>u r. Find uf i = ret (u, r) \<and> in_range (parent uf) r \<and> parent uf ! nat r = r)"
proof -
  from reachable_sized[OF assms(1)] have s: "sized n uf" by simp
  then have inv: "uf_inv uf" by (simp add: sized_def)
  then have rk: "ranked (parent uf) (rank uf)" by (simp add: uf_inv_def)
  have i: "in_range (parent uf) i" unfolding sized_range[OF s] using assms(2,3) by simp
  from Find_inv[OF inv i] obtain u r where
    F: "Find uf i = ret (u, r)" and ir: "is_rep (parent uf) i r" by blast
  have root: "in_range (parent uf) r" "parent uf ! nat r = r" using is_rep_root[OF ir] by simp_all
  have A: "parent uf ! nat i = i \<longleftrightarrow> (\<exists>u. Find uf i = ret (u, i))"
  proof
    assume "parent uf ! nat i = i"
    with i have "is_rep (parent uf) i i" by (rule is_rep.root)
    with ir have "r = i" using is_rep_det by blast
    with F show "\<exists>u. Find uf i = ret (u, i)" by blast
  next
    assume "\<exists>u. Find uf i = ret (u, i)"
    with F have "r = i" by (auto simp: ret_def)
    with root show "parent uf ! nat i = i" by simp
  qed
  from funpow_reaches_rep[OF ir] obtain k where "((\<lambda>j. parent uf ! nat j) ^^ k) i = r" by blast
  with root have B: "\<exists>k r. ((\<lambda>j. parent uf ! nat j) ^^ k) i = r \<and> in_range (parent uf) r \<and>
                parent uf ! nat r = r" by blast
  have C: "parent uf ! nat i \<noteq> i \<longrightarrow> (\<forall>k>0. ((\<lambda>j. parent uf ! nat j) ^^ k) i \<noteq> i)"
  proof (intro impI allI)
    fix k :: nat assume ni: "parent uf ! nat i \<noteq> i" and k: "0 < k"
    from funpow_rank_grows[OF rk i ni k]
    have "rank uf ! nat i < rank uf ! nat (((\<lambda>j. parent uf ! nat j) ^^ k) i)" by simp
    then show "((\<lambda>j. parent uf ! nat j) ^^ k) i \<noteq> i" by auto
  qed
  have D: "\<exists>u r. Find uf i = ret (u, r) \<and> in_range (parent uf) r \<and> parent uf ! nat r = r"
    using F root by blast
  from A B C D show ?thesis by (intro conjI)
qed


theorem parent_pointers_form_forest_witness:
  "reachable 3 \<lparr>parent = [0, 0, 0], rank = [1, 0, 0], count = 1\<rparr> \<and>
   ((\<lambda>j. parent \<lparr>parent = [0, 0, 0], rank = [1, 0, 0], count = 1\<rparr> ! nat j) ^^ 2) 1 \<noteq> 1 \<and>
   (\<exists>u r. Find \<lparr>parent = [0, 0, 0], rank = [1, 0, 0], count = 1\<rparr> 1 = ret (u, r) \<and>
      in_range (parent \<lparr>parent = [0, 0, 0], rank = [1, 0, 0], count = 1\<rparr>) r \<and>
      parent \<lparr>parent = [0, 0, 0], rank = [1, 0, 0], count = 1\<rparr> ! nat r = r)"
proof -
  let ?uf = "\<lparr>parent = [0, 0, 0], rank = [1, 0, 0], count = 1\<rparr>"
  have t: "(parent ?uf ! nat 1 = 1 \<longleftrightarrow> (\<exists>u. Find ?uf 1 = ret (u, 1))) \<and>
         (\<exists>k r. ((\<lambda>j. parent ?uf ! nat j) ^^ k) 1 = r \<and> in_range (parent ?uf) r \<and>
                parent ?uf ! nat r = r) \<and>
         (parent ?uf ! nat 1 \<noteq> 1 \<longrightarrow> (\<forall>k>0. ((\<lambda>j. parent ?uf ! nat j) ^^ k) 1 \<noteq> 1)) \<and>
         (\<exists>u r. Find ?uf 1 = ret (u, r) \<and> in_range (parent ?uf) r \<and> parent ?uf ! nat r = r)"
    by (rule parent_pointers_form_forest[OF reachable3]) simp_all
  have "parent ?uf ! nat 1 \<noteq> 1" by simp
  with t have "\<forall>k>0. ((\<lambda>j. parent ?uf ! nat j) ^^ k) 1 \<noteq> 1" by blast
  then have "(0::nat) < 2 \<longrightarrow> ((\<lambda>j. parent ?uf ! nat j) ^^ 2) 1 \<noteq> 1" by (rule spec)
  then have "((\<lambda>j. parent ?uf ! nat j) ^^ 2) 1 \<noteq> 1" by (rule mp) simp
  with reachable3 t show ?thesis by blast
qed


section \<open>Connectivity as a generated equivalence\<close>

lemma trans_conn: "trans (conn ps)"
  unfolding trans_def conn_def using same_set_trans by blast

lemma trancl_conn: "(conn ps)\<^sup>+ = conn ps"
  using trans_conn by (rule trancl_id)

lemma trancl_least: "R \<subseteq> T \<Longrightarrow> trans T \<Longrightarrow> R\<^sup>+ \<subseteq> T"
proof -
  assume r: "R \<subseteq> T" and t: "trans T"
  from r have "R\<^sup>+ \<subseteq> T\<^sup>+" by (rule trancl_mono_subset)
  with t show ?thesis by (simp add: trancl_id)
qed

lemma trancl_absorb: "(R\<^sup>+ \<union> S)\<^sup>+ = (R \<union> S)\<^sup>+"
proof
  have "R\<^sup>+ \<union> S \<subseteq> (R \<union> S)\<^sup>+"
  proof -
    have "R\<^sup>+ \<subseteq> (R \<union> S)\<^sup>+" by (rule trancl_mono_subset) simp
    moreover have "S \<subseteq> (R \<union> S)\<^sup>+" by auto
    ultimately show ?thesis by simp
  qed
  then show "(R\<^sup>+ \<union> S)\<^sup>+ \<subseteq> (R \<union> S)\<^sup>+"
    by (rule trancl_least) (rule trans_trancl)
next
  have "R \<union> S \<subseteq> R\<^sup>+ \<union> S" by auto
  then show "(R \<union> S)\<^sup>+ \<subseteq> (R\<^sup>+ \<union> S)\<^sup>+" by (rule trancl_mono_subset)
qed

lemma Union_conn:
  assumes inv: "uf_inv uf" and x: "in_range (parent uf) x" and y: "in_range (parent uf) y"
  shows "\<exists>uf' b. Union uf x y = ret (uf', b) \<and> uf_inv uf' \<and>
      length (parent uf') = length (parent uf) \<and>
      conn (parent uf') = (conn (parent uf) \<union> {(x, y), (y, x)})\<^sup>+"
proof -
  let ?E = "conn (parent uf)"
  from Union_correct[OF inv x y] obtain uf' b where
    U: "Union uf x y = Some (Inr (uf', b))" and inv': "uf_inv uf'" and
    len: "length (parent uf') = length (parent uf)" and
    F: "\<forall>a c. same_set (parent uf') a c \<longleftrightarrow>
         same_set (parent uf) a c \<or>
         (same_set (parent uf) a x \<and> same_set (parent uf) y c) \<or>
         (same_set (parent uf) a y \<and> same_set (parent uf) x c)"
    by blast
  let ?E' = "conn (parent uf')"
  have F': "\<And>a c. (a, c) \<in> ?E' \<longleftrightarrow>
      (a, c) \<in> ?E \<or> ((a, x) \<in> ?E \<and> (y, c) \<in> ?E) \<or> ((a, y) \<in> ?E \<and> (x, c) \<in> ?E)"
    using F by (simp add: conn_def)
  have xx: "(x, x) \<in> ?E" and yy: "(y, y) \<in> ?E"
    using same_set_refl[OF inv x] same_set_refl[OF inv y] by (simp_all add: conn_def)
  have "?E' \<subseteq> (?E \<union> {(x, y), (y, x)})\<^sup>+"
  proof
    fix p assume p: "p \<in> ?E'"
    obtain a c where pc: "p = (a, c)" by (cases p)
    let ?T = "(?E \<union> {(x, y), (y, x)})\<^sup>+"
    have e: "\<And>u v. (u, v) \<in> ?E \<Longrightarrow> (u, v) \<in> ?T" by auto
    have sxy: "(x, y) \<in> ?T" and syx: "(y, x) \<in> ?T" by auto
    from p pc F' consider "(a, c) \<in> ?E" | "(a, x) \<in> ?E" "(y, c) \<in> ?E"
      | "(a, y) \<in> ?E" "(x, c) \<in> ?E" by blast
    then have "(a, c) \<in> ?T"
    proof cases
      case 1
      then show ?thesis by (rule e)
    next
      case 2
      from e[OF 2(1)] sxy have "(a, y) \<in> ?T" by (rule trancl_trans)
      from this e[OF 2(2)] show ?thesis by (rule trancl_trans)
    next
      case 3
      from e[OF 3(1)] syx have "(a, x) \<in> ?T" by (rule trancl_trans)
      from this e[OF 3(2)] show ?thesis by (rule trancl_trans)
    qed
    with pc show "p \<in> ?T" by simp
  qed
  moreover have "(?E \<union> {(x, y), (y, x)})\<^sup>+ \<subseteq> ?E'"
  proof (rule trancl_least)
    show "?E \<union> {(x, y), (y, x)} \<subseteq> ?E'"
    proof
      fix p assume p: "p \<in> ?E \<union> {(x, y), (y, x)}"
      obtain a c where pc: "p = (a, c)" by (cases p)
      from p pc consider "(a, c) \<in> ?E" | "a = x" "c = y" | "a = y" "c = x" by auto
      then have "(a, c) \<in> ?E'" unfolding F' using xx yy by cases simp_all
      with pc show "p \<in> ?E'" by simp
    qed
    show "trans ?E'" by (rule trans_conn)
  qed
  ultimately have "?E' = (?E \<union> {(x, y), (y, x)})\<^sup>+" by (rule subset_antisym)
  with U inv' len show ?thesis unfolding ret_def by blast
qed

lemma Union_sized:
  assumes s: "sized n uf" and v: "0 \<le> x" "x < n" "0 \<le> y" "y < n"
  shows "\<exists>uf' b. Union uf x y = ret (uf', b) \<and> sized n uf' \<and>
      conn (parent uf') = (conn (parent uf) \<union> {(x, y), (y, x)})\<^sup>+"
proof -
  from s have inv: "uf_inv uf" by (simp add: sized_def)
  have x: "in_range (parent uf) x" and y: "in_range (parent uf) y"
    unfolding sized_range[OF s] using v by simp_all
  from Union_conn[OF inv x y] obtain uf' b where
    "Union uf x y = ret (uf', b)" "uf_inv uf'" "length (parent uf') = length (parent uf)"
    "conn (parent uf') = (conn (parent uf) \<union> {(x, y), (y, x)})\<^sup>+" by blast
  moreover from this s have "sized n uf'" by (simp add: sized_def)
  ultimately show ?thesis by blast
qed

lemma apply_unions_conn:
  assumes "sized n uf" and "\<forall>p\<in>set ps. 0 \<le> fst p \<and> fst p < n \<and> 0 \<le> snd p \<and> snd p < n"
  shows "\<exists>uf'. apply_unions uf ps = ret uf' \<and> sized n uf' \<and>
           conn (parent uf') = (conn (parent uf) \<union> set ps \<union> (set ps)\<inverse>)\<^sup>+"
  using assms
proof (induction ps arbitrary: uf)
  case Nil
  then show ?case by (auto simp: trancl_conn)
next
  case (Cons p ps)
  obtain x y where p: "p = (x, y)" by (cases p)
  with Cons.prems have v: "0 \<le> x" "x < n" "0 \<le> y" "y < n" by simp_all
  from Union_sized[OF Cons.prems(1) v] obtain uf1 b where
    U: "Union uf x y = ret (uf1, b)" and s1: "sized n uf1" and
    c1: "conn (parent uf1) = (conn (parent uf) \<union> {(x, y), (y, x)})\<^sup>+" by blast
  from Cons.prems have "\<forall>p\<in>set ps. 0 \<le> fst p \<and> fst p < n \<and> 0 \<le> snd p \<and> snd p < n" by simp
  from Cons.IH[OF s1 this] obtain uf2 where
    A: "apply_unions uf1 ps = ret uf2" and s2: "sized n uf2" and
    c2: "conn (parent uf2) = (conn (parent uf1) \<union> set ps \<union> (set ps)\<inverse>)\<^sup>+" by blast
  have "apply_unions uf (p # ps) = ret uf2" using U A p by (simp add: bnd_def ret_def)
  moreover have "conn (parent uf2) = (conn (parent uf) \<union> set (p # ps) \<union> (set (p # ps))\<inverse>)\<^sup>+"
  proof -
    have "conn (parent uf2) =
       ((conn (parent uf) \<union> {(x, y), (y, x)})\<^sup>+ \<union> (set ps \<union> (set ps)\<inverse>))\<^sup>+"
      unfolding c2 c1 by (simp add: Un_assoc)
    also have "\<dots> = ((conn (parent uf) \<union> {(x, y), (y, x)}) \<union> (set ps \<union> (set ps)\<inverse>))\<^sup>+"
      by (rule trancl_absorb)
    also have "(conn (parent uf) \<union> {(x, y), (y, x)}) \<union> (set ps \<union> (set ps)\<inverse>) =
       conn (parent uf) \<union> set (p # ps) \<union> (set (p # ps))\<inverse>"
      unfolding p by auto
    finally show ?thesis .
  qed
  ultimately show ?case using s2 by blast
qed

lemma conn_new:
  assumes "\<forall>a b. same_set ps a b \<longleftrightarrow> 0 \<le> a \<and> a < n \<and> a = b"
  shows "conn ps = Id_on {0..<n}"
  unfolding conn_def using assms by auto

lemma conn_Connected:
  assumes s: "sized n uf" and v: "0 \<le> x" "x < n" "0 \<le> y" "y < n"
  shows "\<exists>u. Connected uf x y = ret (u, (x, y) \<in> conn (parent uf)) \<and> sized n u \<and>
           conn (parent u) = conn (parent uf)"
proof -
  from s have inv: "uf_inv uf" by (simp add: sized_def)
  have x: "in_range (parent uf) x" and y: "in_range (parent uf) y"
    unfolding sized_range[OF s] using v by simp_all
  from Connected_value[OF inv x y] obtain u where
    C: "Connected uf x y = ret (u, same_set (parent uf) x y)" and invu: "uf_inv u" and
    len: "length (parent u) = length (parent uf)" and
    eq: "\<forall>a b. same_set (parent u) a b \<longleftrightarrow> same_set (parent uf) a b" by blast
  have 1: "Connected uf x y = ret (u, (x, y) \<in> conn (parent uf))" using C by (simp add: conn_def)
  have 2: "sized n u" using invu len s by (simp add: sized_def)
  have 3: "conn (parent u) = conn (parent uf)" using eq by (simp add: conn_def)
  from 1 2 3 show ?thesis by blast
qed


lemma edge_pairs_Cons: "edge_pairs (e # es) = insert (From e, To e) (edge_pairs es)"
  by (simp add: edge_pairs_def)

lemma conn_step_absorb:
  "((E \<union> {(u, v), (v, u)})\<^sup>+ \<union> P \<union> P\<inverse>)\<^sup>+ = (E \<union> insert (u, v) P \<union> (insert (u, v) P)\<inverse>)\<^sup>+"
proof -
  have "((E \<union> {(u, v), (v, u)})\<^sup>+ \<union> P \<union> P\<inverse>)\<^sup>+ = ((E \<union> {(u, v), (v, u)})\<^sup>+ \<union> (P \<union> P\<inverse>))\<^sup>+"
    by (simp add: Un_assoc)
  also have "\<dots> = ((E \<union> {(u, v), (v, u)}) \<union> (P \<union> P\<inverse>))\<^sup>+" by (rule trancl_absorb)
  also have "(E \<union> {(u, v), (v, u)}) \<union> (P \<union> P\<inverse>) = E \<union> insert (u, v) P \<union> (insert (u, v) P)\<inverse>"
    by auto
  finally show ?thesis .
qed

lemma DetectCycle_loop_spec:
  assumes "sized n uf" and "\<forall>e\<in>set es. valid_edge n e"
  shows "DetectCycle_loop uf es =
           ret (\<exists>i<length es. (From (es ! i), To (es ! i)) \<in>
                  (conn (parent uf) \<union> edge_pairs (take i es) \<union> (edge_pairs (take i es))\<inverse>)\<^sup>+)"
  using assms
proof (induction es arbitrary: uf)
  case Nil
  then show ?case by simp
next
  case (Cons e es)
  let ?u = "From e" and ?v = "To e" and ?E = "conn (parent uf)"
  from Cons.prems have v: "0 \<le> ?u" "?u < n" "0 \<le> ?v" "?v < n" and
    vs: "\<forall>e\<in>set es. valid_edge n e" by (simp_all add: valid_edge_def)
  from conn_Connected[OF Cons.prems(1) v] obtain uf1 where
    C: "Connected uf ?u ?v = ret (uf1, (?u, ?v) \<in> ?E)" and s1: "sized n uf1" and
    c1: "conn (parent uf1) = ?E" by blast
  have zero: "(From ((e # es) ! 0), To ((e # es) ! 0)) \<in>
      (?E \<union> edge_pairs (take 0 (e # es)) \<union> (edge_pairs (take 0 (e # es)))\<inverse>)\<^sup>+ \<longleftrightarrow> (?u, ?v) \<in> ?E"
    by (simp add: edge_pairs_def trancl_conn)
  show ?case
  proof (cases "(?u, ?v) \<in> ?E")
    case True
    then have "DetectCycle_loop uf (e # es) = ret True" using C by (simp add: bnd_def ret_def)
    moreover have "\<exists>i<length (e # es). (From ((e # es) ! i), To ((e # es) ! i)) \<in>
        (?E \<union> edge_pairs (take i (e # es)) \<union> (edge_pairs (take i (e # es)))\<inverse>)\<^sup>+"
      using True zero by (intro exI[of _ 0]) simp
    ultimately show ?thesis by simp
  next
    case False
    from Union_sized[OF s1 v] obtain uf2 b where
      U: "Union uf1 ?u ?v = ret (uf2, b)" and s2: "sized n uf2" and
      c2: "conn (parent uf2) = (?E \<union> {(?u, ?v), (?v, ?u)})\<^sup>+" unfolding c1 by blast
    have "DetectCycle_loop uf (e # es) = DetectCycle_loop uf2 es"
      using C U False by (simp add: bnd_def ret_def)
    also have "\<dots> = ret (\<exists>i<length es. (From (es ! i), To (es ! i)) \<in>
        (conn (parent uf2) \<union> edge_pairs (take i es) \<union> (edge_pairs (take i es))\<inverse>)\<^sup>+)"
      by (rule Cons.IH[OF s2 vs])
    also have "(\<exists>i<length es. (From (es ! i), To (es ! i)) \<in>
        (conn (parent uf2) \<union> edge_pairs (take i es) \<union> (edge_pairs (take i es))\<inverse>)\<^sup>+) \<longleftrightarrow>
      (\<exists>i<length es. (From ((e # es) ! Suc i), To ((e # es) ! Suc i)) \<in>
        (?E \<union> edge_pairs (take (Suc i) (e # es)) \<union> (edge_pairs (take (Suc i) (e # es)))\<inverse>)\<^sup>+)"
      unfolding c2 conn_step_absorb by (simp add: edge_pairs_Cons)
    also have "\<dots> \<longleftrightarrow> (\<exists>i<length (e # es). (From ((e # es) ! i), To ((e # es) ! i)) \<in>
        (?E \<union> edge_pairs (take i (e # es)) \<union> (edge_pairs (take i (e # es)))\<inverse>)\<^sup>+)"
      using False zero unfolding length_Cons Ex_less_Suc2 by blast
    finally show ?thesis .
  qed
qed

lemma DetectCycle_loop_short:
  assumes "sized n uf" and "\<forall>e\<in>set pre. valid_edge n e" and "valid_edge n e"
    and "(From e, To e) \<in> (conn (parent uf) \<union> edge_pairs pre \<union> (edge_pairs pre)\<inverse>)\<^sup>+"
  shows "DetectCycle_loop uf (pre @ e # rest) = ret True"
  using assms
proof (induction pre arbitrary: uf)
  case Nil
  from Nil.prems(3) have v: "0 \<le> From e" "From e < n" "0 \<le> To e" "To e < n"
    by (simp_all add: valid_edge_def)
  from Nil.prems(4) have "(From e, To e) \<in> conn (parent uf)"
    by (simp add: edge_pairs_def trancl_conn)
  with conn_Connected[OF Nil.prems(1) v] show ?case by (auto simp: bnd_def ret_def)
next
  case (Cons p pre)
  let ?u = "From p" and ?v = "To p" and ?E = "conn (parent uf)"
  from Cons.prems have v: "0 \<le> ?u" "?u < n" "0 \<le> ?v" "?v < n" and
    vs: "\<forall>e\<in>set pre. valid_edge n e" by (simp_all add: valid_edge_def)
  from conn_Connected[OF Cons.prems(1) v] obtain uf1 where
    C: "Connected uf ?u ?v = ret (uf1, (?u, ?v) \<in> ?E)" and s1: "sized n uf1" and
    c1: "conn (parent uf1) = ?E" by blast
  show ?case
  proof (cases "(?u, ?v) \<in> ?E")
    case True
    then show ?thesis using C by (simp add: bnd_def ret_def)
  next
    case False
    from Union_sized[OF s1 v] obtain uf2 b where
      U: "Union uf1 ?u ?v = ret (uf2, b)" and s2: "sized n uf2" and
      c2: "conn (parent uf2) = (?E \<union> {(?u, ?v), (?v, ?u)})\<^sup>+" unfolding c1 by blast
    have "(From e, To e) \<in> (conn (parent uf2) \<union> edge_pairs pre \<union> (edge_pairs pre)\<inverse>)\<^sup>+"
      unfolding c2 conn_step_absorb using Cons.prems(4) by (simp add: edge_pairs_Cons)
    from Cons.IH[OF s2 vs Cons.prems(3) this]
    show ?thesis using C U False by (simp add: bnd_def ret_def)
  qed
qed


text \<open>
  Claim C3. For \<open>n \<ge> 0\<close> and two lists of valid pairs with the same set of pairs (the
  same pairs in two orders), handing each list to \<^verbatim>\<open>Union\<close> on a fresh structure gives
  two structures in which \<^verbatim>\<open>Connected(x, y)\<close> returns the same value for all elements
  \<open>x\<close> and \<open>y\<close>: true exactly when the pairs link \<open>x\<close> to \<open>y\<close>.
\<close>

theorem union_order_irrelevant:
  assumes "0 \<le> n" and "set ps = set qs"
    and "\<forall>p\<in>set ps. 0 \<le> fst p \<and> fst p < n \<and> 0 \<le> snd p \<and> snd p < n"
    and "0 \<le> x" "x < n" "0 \<le> y" "y < n"
  shows "\<exists>uf0 uf1 uf2 u1 u2 b.
           NewUnionFind n = ret uf0 \<and>
           apply_unions uf0 ps = ret uf1 \<and> apply_unions uf0 qs = ret uf2 \<and>
           Connected uf1 x y = ret (u1, b) \<and> Connected uf2 x y = ret (u2, b) \<and>
           b = linked n (set ps) x y"
proof -
  from NewUnionFind_ok[OF assms(1)] obtain uf0 where
    N: "NewUnionFind n = ret uf0" and inv0: "uf_inv uf0" and
    len0: "int (length (parent uf0)) = n" and
    same0: "\<forall>a b. same_set (parent uf0) a b \<longleftrightarrow> 0 \<le> a \<and> a < n \<and> a = b" by blast
  have s0: "sized n uf0" using inv0 len0 by (simp add: sized_def)
  have c0: "conn (parent uf0) = Id_on {0..<n}" using same0 by (rule conn_new)
  from assms(2,3) have vq: "\<forall>p\<in>set qs. 0 \<le> fst p \<and> fst p < n \<and> 0 \<le> snd p \<and> snd p < n"
    by simp
  from apply_unions_conn[OF s0 assms(3)] obtain uf1 where
    A1: "apply_unions uf0 ps = ret uf1" and s1: "sized n uf1" and
    c1: "conn (parent uf1) = (Id_on {0..<n} \<union> set ps \<union> (set ps)\<inverse>)\<^sup>+"
    unfolding c0 by blast
  from apply_unions_conn[OF s0 vq] obtain uf2 where
    A2: "apply_unions uf0 qs = ret uf2" and s2: "sized n uf2" and
    c2: "conn (parent uf2) = (Id_on {0..<n} \<union> set ps \<union> (set ps)\<inverse>)\<^sup>+"
    unfolding c0 assms(2) by blast
  from conn_Connected[OF s1 assms(4-7)] obtain u1 where
    C1: "Connected uf1 x y = ret (u1, linked n (set ps) x y)"
    unfolding c1 linked_def by blast
  from conn_Connected[OF s2 assms(4-7)] obtain u2 where
    C2: "Connected uf2 x y = ret (u2, linked n (set ps) x y)"
    unfolding c2 linked_def by blast
  show ?thesis
    by (intro exI[of _ uf0] exI[of _ uf1] exI[of _ uf2] exI[of _ u1] exI[of _ u2]
          exI[of _ "linked n (set ps) x y"] conjI refl) (fact N A1 A2 C1 C2)+
qed

theorem union_order_irrelevant_witness:
  "set [(0, 1), (1, 2::int)] = set [(1, 2), (0, 1::int)] \<and>
   apply_unions \<lparr>parent = [0, 1, 2], rank = [0, 0, 0], count = 3\<rparr> [(0, 1), (1, 2)] =
     ret \<lparr>parent = [0, 0, 0], rank = [1, 0, 0], count = 1\<rparr> \<and>
   apply_unions \<lparr>parent = [0, 1, 2], rank = [0, 0, 0], count = 3\<rparr> [(1, 2), (0, 1)] =
     ret \<lparr>parent = [1, 1, 1], rank = [0, 1, 0], count = 1\<rparr> \<and>
   (\<exists>u1 u2 b. Connected \<lparr>parent = [0, 0, 0], rank = [1, 0, 0], count = 1\<rparr> 0 2 = ret (u1, b) \<and>
      Connected \<lparr>parent = [1, 1, 1], rank = [0, 1, 0], count = 1\<rparr> 0 2 = ret (u2, b))"
proof -
  have h: "set [(0, 1), (1, 2::int)] = set [(1, 2), (0, 1::int)]" by auto
  have a1: "apply_unions \<lparr>parent = [0, 1, 2], rank = [0, 0, 0], count = 3\<rparr> [(0, 1), (1, 2)] =
     ret \<lparr>parent = [0, 0, 0], rank = [1, 0, 0], count = 1\<rparr>" by code_simp
  have a2: "apply_unions \<lparr>parent = [0, 1, 2], rank = [0, 0, 0], count = 3\<rparr> [(1, 2), (0, 1)] =
     ret \<lparr>parent = [1, 1, 1], rank = [0, 1, 0], count = 1\<rparr>" by code_simp
  have "\<exists>uf0 uf1 uf2 u1 u2 b.
           NewUnionFind 3 = ret uf0 \<and>
           apply_unions uf0 [(0, 1), (1, 2)] = ret uf1 \<and> apply_unions uf0 [(1, 2), (0, 1)] = ret uf2 \<and>
           Connected uf1 0 2 = ret (u1, b) \<and> Connected uf2 0 2 = ret (u2, b) \<and>
           b = linked 3 (set [(0, 1), (1, 2)]) 0 2"
    by (rule union_order_irrelevant[OF _ h]) simp_all
  then obtain uf0 uf1 uf2 u1 u2 b where
    q: "NewUnionFind 3 = ret uf0" "apply_unions uf0 [(0, 1), (1, 2)] = ret uf1"
       "apply_unions uf0 [(1, 2), (0, 1)] = ret uf2"
       "Connected uf1 0 2 = ret (u1, b)" "Connected uf2 0 2 = ret (u2, b)" by blast
  from q(1) new3 have "uf0 = \<lparr>parent = [0, 1, 2], rank = [0, 0, 0], count = 3\<rparr>"
    by (simp add: ret_def)
  with q(2,3) a1 a2 have "uf1 = \<lparr>parent = [0, 0, 0], rank = [1, 0, 0], count = 1\<rparr>"
    "uf2 = \<lparr>parent = [1, 1, 1], rank = [0, 1, 0], count = 1\<rparr>" by (simp_all add: ret_def)
  with q(4,5) have "\<exists>u1 u2 b. Connected \<lparr>parent = [0, 0, 0], rank = [1, 0, 0], count = 1\<rparr> 0 2 = ret (u1, b) \<and>
      Connected \<lparr>parent = [1, 1, 1], rank = [0, 1, 0], count = 1\<rparr> 0 2 = ret (u2, b)" by blast
  with h a1 a2 show ?thesis by blast
qed

text \<open>
  Claim C6. \<^verbatim>\<open>DetectCycle(n, edges)\<close> goes through the edges in input order. On valid
  edges it returns true exactly when some edge has its endpoints already linked by the
  edges before it, and false otherwise. It returns true at the first such edge without
  touching the later ones: whatever follows that edge, even an edge whose endpoints
  are not valid indices, the result is true. On the triangle \<open>(0,1),(1,2),(2,0)\<close> with
  \<open>n = 3\<close> it returns true, on the path \<open>(0,1),(1,2),(2,3)\<close> with \<open>n = 4\<close> false.
\<close>

theorem DetectCycle_first_closing_edge:
  "(0 \<le> n \<and> (\<forall>e\<in>set es. valid_edge n e) \<longrightarrow>
      DetectCycle n es =
        ret (\<exists>i<length es. linked n (edge_pairs (take i es)) (From (es ! i)) (To (es ! i)))) \<and>
   (0 \<le> n \<and> (\<forall>e\<in>set pre. valid_edge n e) \<and> valid_edge n e \<and>
      linked n (edge_pairs pre) (From e) (To e) \<longrightarrow>
      DetectCycle n (pre @ e # rest) = ret True) \<and>
   DetectCycle 3 [\<lparr>From = 0, To = 1, Weight = w1\<rparr>, \<lparr>From = 1, To = 2, Weight = w2\<rparr>,
                  \<lparr>From = 2, To = 0, Weight = w3\<rparr>] = ret True \<and>
   DetectCycle 4 [\<lparr>From = 0, To = 1, Weight = w1\<rparr>, \<lparr>From = 1, To = 2, Weight = w2\<rparr>,
                  \<lparr>From = 2, To = 3, Weight = w3\<rparr>] = ret False"
proof (intro conjI impI)
  assume a: "0 \<le> n \<and> (\<forall>e\<in>set es. valid_edge n e)"
  from NewUnionFind_ok[of n] a obtain uf0 where
    N: "NewUnionFind n = ret uf0" and inv0: "uf_inv uf0" and
    len0: "int (length (parent uf0)) = n" and
    same0: "\<forall>a b. same_set (parent uf0) a b \<longleftrightarrow> 0 \<le> a \<and> a < n \<and> a = b" by blast
  have s0: "sized n uf0" using inv0 len0 by (simp add: sized_def)
  have c0: "conn (parent uf0) = Id_on {0..<n}" using same0 by (rule conn_new)
  from a have v: "\<forall>e\<in>set es. valid_edge n e" by simp
  have "DetectCycle n es = DetectCycle_loop uf0 es"
    using N by (simp add: DetectCycle_def bnd_def ret_def)
  also note DetectCycle_loop_spec[OF s0 v]
  finally show "DetectCycle n es =
      ret (\<exists>i<length es. linked n (edge_pairs (take i es)) (From (es ! i)) (To (es ! i)))"
    unfolding c0 linked_def .
next
  assume a: "0 \<le> n \<and> (\<forall>e\<in>set pre. valid_edge n e) \<and> valid_edge n e \<and>
      linked n (edge_pairs pre) (From e) (To e)"
  from NewUnionFind_ok[of n] a obtain uf0 where
    N: "NewUnionFind n = ret uf0" and inv0: "uf_inv uf0" and
    len0: "int (length (parent uf0)) = n" and
    same0: "\<forall>a b. same_set (parent uf0) a b \<longleftrightarrow> 0 \<le> a \<and> a < n \<and> a = b" by blast
  have s0: "sized n uf0" using inv0 len0 by (simp add: sized_def)
  have c0: "conn (parent uf0) = Id_on {0..<n}" using same0 by (rule conn_new)
  from a have v: "\<forall>e\<in>set pre. valid_edge n e" and ve: "valid_edge n e" and
    l: "(From e, To e) \<in> (conn (parent uf0) \<union> edge_pairs pre \<union> (edge_pairs pre)\<inverse>)\<^sup>+"
    unfolding c0 by (simp_all add: linked_def)
  have "DetectCycle n (pre @ e # rest) = DetectCycle_loop uf0 (pre @ e # rest)"
    using N by (simp add: DetectCycle_def bnd_def ret_def)
  also note DetectCycle_loop_short[OF s0 v ve l]
  finally show "DetectCycle n (pre @ e # rest) = ret True" .
next
  show "DetectCycle 3 [\<lparr>From = 0, To = 1, Weight = w1\<rparr>, \<lparr>From = 1, To = 2, Weight = w2\<rparr>,
                  \<lparr>From = 2, To = 0, Weight = w3\<rparr>] = ret True"
    by code_simp
next
  show "DetectCycle 4 [\<lparr>From = 0, To = 1, Weight = w1\<rparr>, \<lparr>From = 1, To = 2, Weight = w2\<rparr>,
                  \<lparr>From = 2, To = 3, Weight = w3\<rparr>] = ret False"
    by code_simp
qed

theorem DetectCycle_first_closing_edge_witness:
  "valid_edge 2 \<lparr>From = 0, To = 1, Weight = 1\<rparr> \<and> valid_edge 2 \<lparr>From = 1, To = 0, Weight = 1\<rparr> \<and>
   linked 2 (edge_pairs [\<lparr>From = 0, To = 1, Weight = 1\<rparr>]) 1 0 \<and>
   \<not> valid_edge 2 \<lparr>From = 7, To = 9, Weight = 1\<rparr> \<and>
   DetectCycle 2 ([\<lparr>From = 0, To = 1, Weight = 1\<rparr>] @ \<lparr>From = 1, To = 0, Weight = 1\<rparr> #
                  [\<lparr>From = 7, To = 9, Weight = 1\<rparr>]) = ret True \<and>
   DetectCycle 2 [\<lparr>From = 0, To = 1, Weight = 1\<rparr>, \<lparr>From = 1, To = 0, Weight = 1\<rparr>] =
     ret (\<exists>i<length [\<lparr>From = 0, To = 1, Weight = 1\<rparr>, \<lparr>From = 1, To = 0, Weight = (1::int)\<rparr>].
            linked 2 (edge_pairs (take i [\<lparr>From = 0, To = 1, Weight = 1\<rparr>, \<lparr>From = 1, To = 0, Weight = 1\<rparr>]))
              (From ([\<lparr>From = 0, To = 1, Weight = 1\<rparr>, \<lparr>From = 1, To = 0, Weight = 1\<rparr>] ! i))
              (To ([\<lparr>From = 0, To = 1, Weight = 1\<rparr>, \<lparr>From = 1, To = 0, Weight = 1\<rparr>] ! i)))"
proof -
  let ?e1 = "\<lparr>From = 0, To = 1, Weight = 1\<rparr>" and ?e2 = "\<lparr>From = 1, To = 0, Weight = 1\<rparr>"
  let ?e3 = "\<lparr>From = 7, To = 9, Weight = 1\<rparr>"
  have v1: "valid_edge 2 ?e1" and v2: "valid_edge 2 ?e2" and v3: "\<not> valid_edge 2 ?e3"
    by (simp_all add: valid_edge_def)
  have "(1, 0) \<in> (edge_pairs [?e1])\<inverse>" by (simp add: edge_pairs_def)
  then have l: "linked 2 (edge_pairs [?e1]) 1 0" unfolding linked_def by blast
  note t = DetectCycle_first_closing_edge[of 2 "[?e1, ?e2]" "[?e1]" ?e2 "[?e3]"]
  from t have "DetectCycle 2 ([?e1] @ ?e2 # [?e3]) = ret True" using v1 v2 l by simp
  moreover from t have "DetectCycle 2 [?e1, ?e2] =
     ret (\<exists>i<length [?e1, ?e2]. linked 2 (edge_pairs (take i [?e1, ?e2]))
              (From ([?e1, ?e2] ! i)) (To ([?e1, ?e2] ! i)))"
    using v1 v2 by simp
  ultimately show ?thesis using v1 v2 v3 l by blast
qed

section \<open>Kruskal's algorithm\<close>

lemma mset_insert_sorted: "mset (insert_sorted lt x ys) = add_mset x (mset ys)"
  by (induction ys) simp_all

lemma set_insert_sorted: "set (insert_sorted lt x ys) = insert x (set ys)"
  by (induction ys) auto

lemma sorted_insert_sorted:
  "sorted_wrt (\<lambda>a b. \<not> weight_less b a) ys \<Longrightarrow>
   sorted_wrt (\<lambda>a b. \<not> weight_less b a) (insert_sorted weight_less x ys)"
  by (induction ys) (auto simp: set_insert_sorted weight_less_def)

lemma insertion_sort_contract: "sort_Slice_contract insertion_sort"
proof -
  have "mset (foldr (insert_sorted weight_less) xs []) = mset xs \<and>
        sorted_wrt (\<lambda>a b. \<not> weight_less b a) (foldr (insert_sorted weight_less) xs [])" for xs
    by (induction xs) (simp_all add: mset_insert_sorted sorted_insert_sorted)
  then show ?thesis by (simp add: sort_Slice_contract_def insertion_sort_def)
qed


lemma stable_sort_by_weight_stable:
  "filter (\<lambda>e. Weight e = k) (stable_sort_by_weight edges) = filter (\<lambda>e. Weight e = k) edges"
  unfolding stable_sort_by_weight_def by (rule sort_key_stable)

lemma contract_sorted:
  assumes "sort_Slice_contract srt"
  shows "mset (srt weight_less xs) = mset xs"
    and "sorted_wrt (\<lambda>a b. Weight a \<le> Weight b) (srt weight_less xs)"
proof -
  from assms show "mset (srt weight_less xs) = mset xs" by (simp add: sort_Slice_contract_def)
  from assms have "sorted_wrt (\<lambda>a b. \<not> weight_less b a) (srt weight_less xs)"
    by (simp add: sort_Slice_contract_def)
  moreover have "(\<lambda>a b. \<not> weight_less b a) = (\<lambda>a b. Weight a \<le> Weight b)"
    by (intro ext) (auto simp: weight_less_def)
  ultimately show "sorted_wrt (\<lambda>a b. Weight a \<le> Weight b) (srt weight_less xs)" by simp
qed

lemma KruskalMST_loop_ok:
  assumes "sized n uf" and "\<forall>e\<in>set es. valid_edge n e"
  shows "\<exists>sub total. KruskalMST_loop n uf es mst t = ret (mst @ sub, total) \<and> subseq sub es"
  using assms
proof (induction es arbitrary: uf mst t)
  case Nil
  have "KruskalMST_loop n uf [] mst t = ret (mst @ [], t)" by simp
  then show ?case by blast
next
  case (Cons e es)
  from Cons.prems have v: "0 \<le> From e" "From e < n" "0 \<le> To e" "To e < n" and
    vs: "\<forall>e\<in>set es. valid_edge n e" by (simp_all add: valid_edge_def)
  from Union_sized[OF Cons.prems(1) v] obtain uf1 b where
    U: "Union uf (From e) (To e) = ret (uf1, b)" and s1: "sized n uf1" by blast
  show ?case
  proof (cases b)
    case False
    from Cons.IH[OF s1 vs, of mst t] obtain sub total where
      K: "KruskalMST_loop n uf1 es mst t = ret (mst @ sub, total)" and sub: "subseq sub es" by blast
    have "KruskalMST_loop n uf (e # es) mst t = ret (mst @ sub, total)"
      using U False K by (simp add: bnd_def ret_def)
    moreover have "subseq sub (e # es)" using sub by (rule list_emb_Cons)
    ultimately show ?thesis by blast
  next
    case True
    show ?thesis
    proof (cases "int (length (mst @ [e])) = n - 1")
      case full: True
      have "KruskalMST_loop n uf (e # es) mst t = ret (mst @ [e], wrap64 (t + Weight e))"
        using U True full by (simp add: bnd_def ret_def Let_def)
      moreover have "subseq [e] (e # es)" by simp
      ultimately show ?thesis by blast
    next
      case more: False
      from Cons.IH[OF s1 vs, of "mst @ [e]" "wrap64 (t + Weight e)"] obtain sub total where
        K: "KruskalMST_loop n uf1 es (mst @ [e]) (wrap64 (t + Weight e)) = ret ((mst @ [e]) @ sub, total)"
        and sub: "subseq sub es" by blast
      have "KruskalMST_loop n uf (e # es) mst t = ret (mst @ (e # sub), total)"
        using U True more K by (simp add: bnd_def ret_def Let_def)
      moreover have "subseq (e # sub) (e # es)" using sub by simp
      ultimately show ?thesis by blast
    qed
  qed
qed

lemma KruskalMST_ok:
  assumes c: "sort_Slice_contract srt" and n: "0 \<le> n" and v: "\<forall>e\<in>set edges. valid_edge n e"
  shows "\<exists>mst total. KruskalMST srt n edges = ret (srt weight_less edges, mst, total) \<and>
           subseq mst (srt weight_less edges)"
proof -
  let ?es = "srt weight_less edges"
  from NewUnionFind_ok[OF n] obtain uf0 where
    N: "NewUnionFind n = ret uf0" and inv0: "uf_inv uf0" and
    len0: "int (length (parent uf0)) = n" by blast
  have s0: "sized n uf0" using inv0 len0 by (simp add: sized_def)
  have "set ?es = set edges" using contract_sorted(1)[OF c] by (rule mset_eq_setD)
  with v have v': "\<forall>e\<in>set ?es. valid_edge n e" by simp
  from KruskalMST_loop_ok[OF s0 v', of "[]" 0] obtain sub total where
    K: "KruskalMST_loop n uf0 ?es [] 0 = ret (sub, total)" and sub: "subseq sub ?es" by auto
  have "KruskalMST srt n edges = ret (?es, sub, total)"
    using N K by (simp add: KruskalMST_def bnd_def ret_def)
  with sub show ?thesis by blast
qed




text \<open>
  Claim C10. \<^verbatim>\<open>KruskalMST\<close> sorts the slice it is given in place: for valid input, when
  the call returns, the caller's slice holds the same edges in ascending order of
  weight; it is no longer in its input order whenever the input was not ascending.
\<close>

theorem KruskalMST_sorts_callers_slice:
  assumes "sort_Slice_contract srt" and "0 \<le> n" and "\<forall>e\<in>set edges. valid_edge n e"
  shows "\<exists>edges1 mst total. KruskalMST srt n edges = ret (edges1, mst, total) \<and>
           mset edges1 = mset edges \<and> sorted_wrt (\<lambda>a b. Weight a \<le> Weight b) edges1 \<and>
           (\<not> sorted_wrt (\<lambda>a b. Weight a \<le> Weight b) edges \<longrightarrow> edges1 \<noteq> edges)"
proof -
  from KruskalMST_ok[OF assms] obtain mst total where
    K: "KruskalMST srt n edges = ret (srt weight_less edges, mst, total)" by blast
  note p = contract_sorted[OF assms(1), of edges]
  have "\<not> sorted_wrt (\<lambda>a b. Weight a \<le> Weight b) edges \<longrightarrow> srt weight_less edges \<noteq> edges"
    using p(2) by auto
  with K p show ?thesis by blast
qed

theorem KruskalMST_sorts_callers_slice_witness:
  "sort_Slice_contract insertion_sort \<and>
   valid_edge 3 \<lparr>From = 0, To = 1, Weight = 5\<rparr> \<and> valid_edge 3 \<lparr>From = 1, To = 2, Weight = 3\<rparr> \<and>
   (\<exists>edges1 mst total. KruskalMST insertion_sort 3
        [\<lparr>From = 0, To = 1, Weight = 5\<rparr>, \<lparr>From = 1, To = 2, Weight = 3\<rparr>] = ret (edges1, mst, total) \<and>
      mset edges1 = mset [\<lparr>From = 0, To = 1, Weight = 5\<rparr>, \<lparr>From = 1, To = 2, Weight = 3\<rparr>] \<and>
      sorted_wrt (\<lambda>a b. Weight a \<le> Weight b) edges1 \<and>
      edges1 \<noteq> [\<lparr>From = 0, To = 1, Weight = 5\<rparr>, \<lparr>From = 1, To = 2, Weight = 3\<rparr>])"
proof -
  let ?e1 = "\<lparr>From = 0, To = 1, Weight = 5\<rparr>" and ?e2 = "\<lparr>From = 1, To = 2, Weight = 3\<rparr>"
  have v: "valid_edge 3 ?e1" "valid_edge 3 ?e2" by (simp_all add: valid_edge_def)
  then have vs: "\<forall>e\<in>set [?e1, ?e2]. valid_edge 3 e" by simp
  have u: "\<not> sorted_wrt (\<lambda>a b. Weight a \<le> Weight b) [?e1, ?e2]" by simp
  from KruskalMST_sorts_callers_slice[OF insertion_sort_contract _ vs] u
  have "\<exists>edges1 mst total. KruskalMST insertion_sort 3 [?e1, ?e2] = ret (edges1, mst, total) \<and>
      mset edges1 = mset [?e1, ?e2] \<and> sorted_wrt (\<lambda>a b. Weight a \<le> Weight b) edges1 \<and>
      edges1 \<noteq> [?e1, ?e2]" by simp
  with insertion_sort_contract v show ?thesis by blast
qed





lemma example3_all_orders:
  "\<forall>s2 s4 s7 s8. tree_size_weight 9 (example3_ascending s2 s4 s7 s8) = ret (8, 37)"
  by code_simp

lemma sort_weights: "sort (map Weight example3_edges) = [1, 2, 2, 4, 4, 6, 7, 7, 8, 8, 9, 10, 11, 14]"
  by code_simp


lemma tie_cases: "a = x \<or> a = y \<Longrightarrow> b = x \<or> b = y \<Longrightarrow> a \<noteq> b \<Longrightarrow> \<exists>s. [a, b] = tie s x y"
proof -
  assume "a = x \<or> a = y" "b = x \<or> b = y" "a \<noteq> b"
  then have "[a, b] = tie False x y \<or> [a, b] = tie True x y" by (auto simp: tie_def)
  then show ?thesis by blast
qed

lemma example3_sorted_perms:
  assumes m: "mset ys = mset example3_edges"
    and s: "sorted_wrt (\<lambda>a b. Weight a \<le> Weight b) ys"
  shows "\<exists>s2 s4 s7 s8. ys = example3_ascending s2 s4 s7 s8"
proof -
  from m have "mset (map Weight ys) = mset (map Weight example3_edges)" by simp
  moreover from s have "sorted (map Weight ys)" by (simp add: sorted_map)
  ultimately have "sort (map Weight example3_edges) = map Weight ys" by (rule properties_for_sort)
  then have W: "map Weight ys = [1, 2, 2, 4, 4, 6, 7, 7, 8, 8, 9, 10, 11, 14]" by (simp add: sort_weights)
  then obtain a1 a2 a3 a4 a5 a6 a7 a8 a9 a10 a11 a12 a13 a14 where
    ys: "ys = [a1, a2, a3, a4, a5, a6, a7, a8, a9, a10, a11, a12, a13, a14]" and
    w1: "Weight a1 = 1" and
    w2: "Weight a2 = 2" and
    w3: "Weight a3 = 2" and
    w4: "Weight a4 = 4" and
    w5: "Weight a5 = 4" and
    w6: "Weight a6 = 6" and
    w7: "Weight a7 = 7" and
    w8: "Weight a8 = 7" and
    w9: "Weight a9 = 8" and
    w10: "Weight a10 = 8" and
    w11: "Weight a11 = 9" and
    w12: "Weight a12 = 10" and
    w13: "Weight a13 = 11" and
    w14: "Weight a14 = 14"
    by (auto simp: map_eq_Cons_conv)
  have mem: "set ys = set example3_edges" using m by (rule mset_eq_setD)
  have in_ys: "\<And>a. a \<in> set ys \<Longrightarrow> a \<in> set example3_edges" using mem by simp
  have "distinct example3_edges" by (simp add: example3_edges_def)
  then have d: "distinct ys" using m mset_eq_imp_distinct_iff by blast
  have "a1 \<in> set example3_edges" by (rule in_ys) (simp add: ys)
  then have e1: "a1 = \<lparr>From = 6, To = 7, Weight = 1\<rparr>" using w1 by (auto simp: example3_edges_def)
  have "a2 \<in> set example3_edges" by (rule in_ys) (simp add: ys)
  then have e2: "a2 = \<lparr>From = 2, To = 8, Weight = 2\<rparr> \<or> a2 = \<lparr>From = 5, To = 6, Weight = 2\<rparr>" using w2 by (auto simp: example3_edges_def)
  have "a3 \<in> set example3_edges" by (rule in_ys) (simp add: ys)
  then have e3: "a3 = \<lparr>From = 2, To = 8, Weight = 2\<rparr> \<or> a3 = \<lparr>From = 5, To = 6, Weight = 2\<rparr>" using w3 by (auto simp: example3_edges_def)
  have "a4 \<in> set example3_edges" by (rule in_ys) (simp add: ys)
  then have e4: "a4 = \<lparr>From = 0, To = 1, Weight = 4\<rparr> \<or> a4 = \<lparr>From = 2, To = 5, Weight = 4\<rparr>" using w4 by (auto simp: example3_edges_def)
  have "a5 \<in> set example3_edges" by (rule in_ys) (simp add: ys)
  then have e5: "a5 = \<lparr>From = 0, To = 1, Weight = 4\<rparr> \<or> a5 = \<lparr>From = 2, To = 5, Weight = 4\<rparr>" using w5 by (auto simp: example3_edges_def)
  have "a6 \<in> set example3_edges" by (rule in_ys) (simp add: ys)
  then have e6: "a6 = \<lparr>From = 6, To = 8, Weight = 6\<rparr>" using w6 by (auto simp: example3_edges_def)
  have "a7 \<in> set example3_edges" by (rule in_ys) (simp add: ys)
  then have e7: "a7 = \<lparr>From = 2, To = 3, Weight = 7\<rparr> \<or> a7 = \<lparr>From = 7, To = 8, Weight = 7\<rparr>" using w7 by (auto simp: example3_edges_def)
  have "a8 \<in> set example3_edges" by (rule in_ys) (simp add: ys)
  then have e8: "a8 = \<lparr>From = 2, To = 3, Weight = 7\<rparr> \<or> a8 = \<lparr>From = 7, To = 8, Weight = 7\<rparr>" using w8 by (auto simp: example3_edges_def)
  have "a9 \<in> set example3_edges" by (rule in_ys) (simp add: ys)
  then have e9: "a9 = \<lparr>From = 0, To = 7, Weight = 8\<rparr> \<or> a9 = \<lparr>From = 1, To = 2, Weight = 8\<rparr>" using w9 by (auto simp: example3_edges_def)
  have "a10 \<in> set example3_edges" by (rule in_ys) (simp add: ys)
  then have e10: "a10 = \<lparr>From = 0, To = 7, Weight = 8\<rparr> \<or> a10 = \<lparr>From = 1, To = 2, Weight = 8\<rparr>" using w10 by (auto simp: example3_edges_def)
  have "a11 \<in> set example3_edges" by (rule in_ys) (simp add: ys)
  then have e11: "a11 = \<lparr>From = 3, To = 4, Weight = 9\<rparr>" using w11 by (auto simp: example3_edges_def)
  have "a12 \<in> set example3_edges" by (rule in_ys) (simp add: ys)
  then have e12: "a12 = \<lparr>From = 4, To = 5, Weight = 10\<rparr>" using w12 by (auto simp: example3_edges_def)
  have "a13 \<in> set example3_edges" by (rule in_ys) (simp add: ys)
  then have e13: "a13 = \<lparr>From = 1, To = 7, Weight = 11\<rparr>" using w13 by (auto simp: example3_edges_def)
  have "a14 \<in> set example3_edges" by (rule in_ys) (simp add: ys)
  then have e14: "a14 = \<lparr>From = 3, To = 5, Weight = 14\<rparr>" using w14 by (auto simp: example3_edges_def)
  have n2: "a2 \<noteq> a3" using d unfolding ys by simp
  from tie_cases[OF e2 e3 n2] obtain s2 where t2: "[a2, a3] = tie s2 \<lparr>From = 2, To = 8, Weight = 2\<rparr> \<lparr>From = 5, To = 6, Weight = 2\<rparr>" ..
  have n4: "a4 \<noteq> a5" using d unfolding ys by simp
  from tie_cases[OF e4 e5 n4] obtain s4 where t4: "[a4, a5] = tie s4 \<lparr>From = 0, To = 1, Weight = 4\<rparr> \<lparr>From = 2, To = 5, Weight = 4\<rparr>" ..
  have n7: "a7 \<noteq> a8" using d unfolding ys by simp
  from tie_cases[OF e7 e8 n7] obtain s7 where t7: "[a7, a8] = tie s7 \<lparr>From = 2, To = 3, Weight = 7\<rparr> \<lparr>From = 7, To = 8, Weight = 7\<rparr>" ..
  have n9: "a9 \<noteq> a10" using d unfolding ys by simp
  from tie_cases[OF e9 e10 n9] obtain s9 where t9: "[a9, a10] = tie s9 \<lparr>From = 0, To = 7, Weight = 8\<rparr> \<lparr>From = 1, To = 2, Weight = 8\<rparr>" ..
  have "ys = [a1] @ [a2, a3] @ [a4, a5] @ [a6] @ [a7, a8] @ [a9, a10] @ [a11, a12, a13, a14]"
    unfolding ys by simp
  also have "\<dots> = example3_ascending s2 s4 s7 s9"
    unfolding t2 t4 t7 t9 example3_ascending_def e1 e6 e11 e12 e13 e14 by (rule refl)
  finally show ?thesis by blast
qed


text \<open>
  Claim C7. \<^verbatim>\<open>KruskalMST\<close> on 9 vertices and the fourteen edges of Example 3 returns a
  tree of exactly 8 edges with total weight 37, however \<^verbatim>\<open>sort.Slice\<close> orders the edges
  of equal weight.
\<close>

theorem KruskalMST_example3:
  assumes "sort_Slice_contract srt"
  shows "\<exists>edges1 mst. KruskalMST srt 9 example3_edges = ret (edges1, mst, 37) \<and> length mst = 8"
proof -
  let ?es = "srt weight_less example3_edges"
  from example3_sorted_perms[OF contract_sorted[OF assms]] obtain s2 s4 s7 s8 where
    "?es = example3_ascending s2 s4 s7 s8" by blast
  with example3_all_orders have T: "tree_size_weight 9 ?es = ret (8, 37)" by simp
  from NewUnionFind_ok[of 9] obtain uf0 where N: "NewUnionFind 9 = ret uf0" by auto
  from T N have "bnd (KruskalMST_loop 9 uf0 ?es [] 0) (\<lambda>(mst, total). ret (length mst, total)) =
      ret (8, 37)"
    by (simp add: tree_size_weight_def bnd_def ret_def)
  then obtain mst where K: "KruskalMST_loop 9 uf0 ?es [] 0 = ret (mst, 37)" and l: "length mst = 8"
    by (auto simp: bnd_def ret_def split: option.splits sum.splits)
  have "KruskalMST srt 9 example3_edges = ret (?es, mst, 37)"
    using N K by (simp add: KruskalMST_def bnd_def ret_def)
  with l show ?thesis by blast
qed

theorem KruskalMST_example3_witness:
  "sort_Slice_contract insertion_sort \<and>
   (\<exists>edges1 mst. KruskalMST insertion_sort 9 example3_edges = ret (edges1, mst, 37) \<and>
      length mst = 8) \<and>
   KruskalMST insertion_sort 9 example3_edges =
     ret (example3_ascending False False False False,
          [\<lparr>From = 6, To = 7, Weight = 1\<rparr>, \<lparr>From = 2, To = 8, Weight = 2\<rparr>,
           \<lparr>From = 5, To = 6, Weight = 2\<rparr>, \<lparr>From = 0, To = 1, Weight = 4\<rparr>,
           \<lparr>From = 2, To = 5, Weight = 4\<rparr>, \<lparr>From = 2, To = 3, Weight = 7\<rparr>,
           \<lparr>From = 0, To = 7, Weight = 8\<rparr>, \<lparr>From = 3, To = 4, Weight = 9\<rparr>], 37)"
proof -
  have "KruskalMST insertion_sort 9 example3_edges =
     ret (example3_ascending False False False False,
          [\<lparr>From = 6, To = 7, Weight = 1\<rparr>, \<lparr>From = 2, To = 8, Weight = 2\<rparr>,
           \<lparr>From = 5, To = 6, Weight = 2\<rparr>, \<lparr>From = 0, To = 1, Weight = 4\<rparr>,
           \<lparr>From = 2, To = 5, Weight = 4\<rparr>, \<lparr>From = 2, To = 3, Weight = 7\<rparr>,
           \<lparr>From = 0, To = 7, Weight = 8\<rparr>, \<lparr>From = 3, To = 4, Weight = 9\<rparr>], 37)"
    by code_simp
  with KruskalMST_example3[OF insertion_sort_contract] insertion_sort_contract
  show ?thesis by blast
qed

section \<open>Ranks and count stay within the machine range\<close>

lemma two_Finds:
  assumes inv: "uf_inv uf" and x: "in_range (parent uf) x" and y: "in_range (parent uf) y"
  shows "\<exists>uf1 uf2 rX rY. Find uf x = ret (uf1, rX) \<and> Find uf1 y = ret (uf2, rY) \<and>
           rank uf2 = rank uf \<and> count uf2 = count uf \<and>
           in_range (rank uf2) rX \<and> in_range (rank uf2) rY \<and>
           in_range (parent uf2) rX \<and> in_range (parent uf2) rY"
proof -
  from inv have rk0: "ranked (parent uf) (rank uf)" by (simp add: uf_inv_def)
  from Find_correct[OF rk0 x] obtain uf1 rX where
    F1: "Find uf x = Some (Inr (uf1, rX))" and xr: "is_rep (parent uf) x rX" and
    r1: "rank uf1 = rank uf" and c1: "count uf1 = count uf" and
    len1: "length (parent uf1) = length (parent uf)" and
    ranked1: "ranked (parent uf1) (rank uf1)"
    by blast
  have y1: "in_range (parent uf1) y" using y len1 by (simp add: in_range_def)
  from Find_correct[OF ranked1 y1] obtain uf2 rY where
    F2: "Find uf1 y = Some (Inr (uf2, rY))" and yr: "is_rep (parent uf1) y rY" and
    r2: "rank uf2 = rank uf1" and c2: "count uf2 = count uf1" and
    len2: "length (parent uf2) = length (parent uf1)"
    by blast
  have lr: "length (rank uf) = length (parent uf)" using rk0 by (simp add: ranked_def)
  have "in_range (parent uf) rX" using is_rep_root[OF xr] by simp
  moreover have "in_range (parent uf1) rY" using is_rep_root[OF yr] by simp
  ultimately have rng: "in_range (rank uf2) rX" "in_range (rank uf2) rY"
    "in_range (parent uf2) rX" "in_range (parent uf2) rY"
    using r1 r2 len1 len2 lr by (simp_all add: in_range_def)
  show ?thesis
    using F1 F2 r1 r2 c1 c2 rng
    by (intro exI[of _ uf1] exI[of _ uf2] exI[of _ rX] exI[of _ rY]) (simp add: ret_def)
qed

lemma Connected_keeps_rank:
  assumes inv: "uf_inv uf" and x: "in_range (parent uf) x" and y: "in_range (parent uf) y"
    and C: "Connected uf x y = ret (uf', b)"
  shows "rank uf' = rank uf \<and> count uf' = count uf"
proof -
  from two_Finds[OF inv x y] obtain uf1 uf2 rX rY where
    "Find uf x = ret (uf1, rX)" "Find uf1 y = ret (uf2, rY)"
    "rank uf2 = rank uf" "count uf2 = count uf" by blast
  with C show ?thesis by (simp add: Connected_def bnd_def ret_def)
qed

lemma Find_keeps_rank:
  assumes inv: "uf_inv uf" and x: "in_range (parent uf) x" and F: "Find uf x = ret (uf', r)"
  shows "rank uf' = rank uf \<and> count uf' = count uf"
proof -
  from inv have rk0: "ranked (parent uf) (rank uf)" by (simp add: uf_inv_def)
  from Find_correct[OF rk0 x] obtain uf1 r1 where
    "Find uf x = Some (Inr (uf1, r1))" "rank uf1 = rank uf" "count uf1 = count uf" by blast
  with F show ?thesis by (simp add: ret_def)
qed

lemma Union_rank_shape:
  assumes inv: "uf_inv uf" and x: "in_range (parent uf) x" and y: "in_range (parent uf) y"
    and U: "Union uf x y = ret (uf', b)"
  shows "(rank uf' = rank uf \<and> count uf' \<le> count uf) \<or>
         (count uf' = count uf - 1 \<and>
          (\<exists>r. in_range (rank uf) r \<and> rank uf' = (rank uf)[nat r := rank uf ! nat r + 1]))"
proof -
  from two_Finds[OF inv x y] obtain uf1 uf2 rX rY where
    F: "Find uf x = ret (uf1, rX)" "Find uf1 y = ret (uf2, rY)" and
    r2: "rank uf2 = rank uf" and c2: "count uf2 = count uf" and
    rng: "in_range (rank uf2) rX" "in_range (rank uf2) rY"
         "in_range (parent uf2) rX" "in_range (parent uf2) rY" by blast
  show ?thesis
  proof (cases "rX = rY")
    case True
    with U F have "uf' = uf2" by (simp add: Union_def bnd_def ret_def)
    with r2 c2 show ?thesis by simp
  next
    case False
    consider (lt) "rank uf2 ! nat rX < rank uf2 ! nat rY" | (gt) "rank uf2 ! nat rX > rank uf2 ! nat rY"
      | (eq) "rank uf2 ! nat rX = rank uf2 ! nat rY" by linarith
    then show ?thesis
    proof cases
      case lt
      with U F False rng have "uf' = uf2\<lparr>parent := (parent uf2)[nat rX := rY], count := count uf2 - 1\<rparr>"
        by (simp add: Union_def bnd_def ret_def index_def assign_def)
      with r2 c2 show ?thesis by simp
    next
      case gt
      with U F False rng have "uf' = uf2\<lparr>parent := (parent uf2)[nat rY := rX], count := count uf2 - 1\<rparr>"
        by (simp add: Union_def bnd_def ret_def index_def assign_def)
      with r2 c2 show ?thesis by simp
    next
      case eq
      with U F False rng have "uf' = uf2\<lparr>parent := (parent uf2)[nat rY := rX],
          rank := (rank uf2)[nat rX := rank uf2 ! nat rX + 1], count := count uf2 - 1\<rparr>"
        by (simp add: Union_def bnd_def ret_def index_def assign_def)
      with r2 c2 rng(1) have "count uf' = count uf - 1 \<and> in_range (rank uf) rX \<and>
          rank uf' = (rank uf)[nat rX := rank uf ! nat rX + 1]" by simp
      then show ?thesis by blast
    qed
  qed
qed

lemma sum_list_bump: "k < length xs \<Longrightarrow> sum_list (xs[k := xs ! k + 1]) = sum_list xs + (1::int)"
proof (induction xs arbitrary: k)
  case Nil
  then show ?case by simp
next
  case (Cons a xs)
  show ?case
  proof (cases k)
    case 0
    then show ?thesis by simp
  next
    case (Suc j)
    with Cons.prems have "j < length xs" by simp
    from Cons.IH[OF this] Suc show ?thesis by simp
  qed
qed

lemma bounded_step:
  assumes b: "bounded n uf"
    and s: "(rank uf' = rank uf \<and> count uf' \<le> count uf) \<or>
         (count uf' = count uf - 1 \<and>
          (\<exists>r. in_range (rank uf) r \<and> rank uf' = (rank uf)[nat r := rank uf ! nat r + 1]))"
  shows "bounded n uf'"
  using s
proof
  assume "rank uf' = rank uf \<and> count uf' \<le> count uf"
  with b show ?thesis by (simp add: bounded_def)
next
  assume a: "count uf' = count uf - 1 \<and>
      (\<exists>r. in_range (rank uf) r \<and> rank uf' = (rank uf)[nat r := rank uf ! nat r + 1])"
  then obtain r where r: "in_range (rank uf) r" and
    e: "rank uf' = (rank uf)[nat r := rank uf ! nat r + 1]" by blast
  from a have c: "count uf' = count uf - 1" by simp
  from b have nn: "\<forall>v\<in>set (rank uf). 0 \<le> v" and sm: "sum_list (rank uf) + count uf \<le> n"
    by (simp_all add: bounded_def)
  have k: "nat r < length (rank uf)" using r by (rule in_range_nat)
  have sum: "sum_list (rank uf') = sum_list (rank uf) + 1"
    unfolding e using k by (rule sum_list_bump)
  have "0 \<le> rank uf ! nat r" using nn k by simp
  then have new: "0 \<le> rank uf ! nat r + 1" by simp
  have nn': "\<forall>v\<in>set (rank uf'). 0 \<le> v"
  proof
    fix v assume "v \<in> set (rank uf')"
    then have "v \<in> set ((rank uf)[nat r := rank uf ! nat r + 1])" by (simp only: e)
    then have "v = rank uf ! nat r + 1 \<or> v \<in> set (rank uf)"
      using set_update_subset_insert by fastforce
    then show "0 \<le> v" using new nn by blast
  qed
  have "sum_list (rank uf') + count uf' \<le> n" using sum c sm by simp
  with nn' show ?thesis unfolding bounded_def by blast
qed

lemma bnd_ret_iff: "bnd m f = ret v \<longleftrightarrow> (\<exists>a. m = ret a \<and> f a = ret v)"
  by (cases m) (auto simp: bnd_def ret_def split: sum.splits)

lemma exec_bounded:
  assumes s: "sized n uf" and b: "bounded n uf" and v: "valid_call n c"
    and E: "exec uf c = ret (uf', r)"
  shows "bounded n uf'"
proof -
  from s have inv: "uf_inv uf" by (simp add: sized_def)
  show ?thesis
  proof (cases c)
    case (CallFind x)
    with s v have x: "in_range (parent uf) x" by (simp add: sized_range)
    from E[unfolded CallFind exec.simps bnd_ret_iff] obtain a where
      a: "Find uf x = ret a" and a': "(case a of (uf1, v) \<Rightarrow> ret (uf1, Root v)) = ret (uf', r)" by blast
    from a' have "fst a = uf'" by (cases a) (simp add: ret_def)
    with a have "Find uf x = ret (uf', snd a)" by (cases a) simp
    from Find_keeps_rank[OF inv x this] b show ?thesis by (simp add: bounded_def)
  next
    case (CallUnion x y)
    with s v have x: "in_range (parent uf) x" and y: "in_range (parent uf) y"
      by (simp_all add: sized_range)
    from E[unfolded CallUnion exec.simps bnd_ret_iff] obtain a where
      a: "Union uf x y = ret a" and a': "(case a of (uf1, v) \<Rightarrow> ret (uf1, Answer v)) = ret (uf', r)" by blast
    from a' have "fst a = uf'" by (cases a) (simp add: ret_def)
    with a have "Union uf x y = ret (uf', snd a)" by (cases a) simp
    from bounded_step[OF b Union_rank_shape[OF inv x y this]] show ?thesis .
  next
    case (CallConnected x y)
    with s v have x: "in_range (parent uf) x" and y: "in_range (parent uf) y"
      by (simp_all add: sized_range)
    from E[unfolded CallConnected exec.simps bnd_ret_iff] obtain a where
      a: "Connected uf x y = ret a" and a': "(case a of (uf1, v) \<Rightarrow> ret (uf1, Answer v)) = ret (uf', r)" by blast
    from a' have "fst a = uf'" by (cases a) (simp add: ret_def)
    with a have "Connected uf x y = ret (uf', snd a)" by (cases a) simp
    from Connected_keeps_rank[OF inv x y this] b show ?thesis by (simp add: bounded_def)
  qed
qed

lemma run_bounded:
  assumes "sized n uf" and "bounded n uf" and "\<forall>c\<in>set cs. valid_call n c"
    and "run uf cs = ret (uf', rs)"
  shows "bounded n uf'"
  using assms
proof (induction cs arbitrary: uf rs)
  case Nil
  then show ?case by (simp add: ret_def)
next
  case (Cons c cs)
  from Cons.prems have v: "valid_call n c" and vs: "\<forall>c\<in>set cs. valid_call n c" by simp_all
  from exec_ok[OF Cons.prems(1) v] obtain uf1 r where
    E: "exec uf c = ret (uf1, r)" and s1: "sized n uf1" by blast
  from exec_bounded[OF Cons.prems(1,2) v E] have b1: "bounded n uf1" .
  from run_ok[OF s1 vs] obtain uf2 rs2 where R: "run uf1 cs = ret (uf2, rs2)" by blast
  with E Cons.prems(4) have "uf2 = uf'" by (simp add: bnd_def ret_def)
  with R Cons.IH[OF s1 b1 vs] show ?case by simp
qed

lemma reachable_values_in_range:
  assumes "reachable n uf"
  shows "0 \<le> count uf \<and> count uf \<le> n \<and> (\<forall>r\<in>set (rank uf). 0 \<le> r \<and> r \<le> n)"
proof -
  from assms obtain cs uf0 rs where v: "\<forall>c\<in>set cs. valid_call n c" and
    N: "NewUnionFind n = ret uf0" and R: "run uf0 cs = ret (uf, rs)"
    unfolding reachable_def by blast
  from N have n: "0 \<le> n" by (auto simp: NewUnionFind_def ret_def throw_def split: if_splits)
  from N n have uf0: "uf0 = \<lparr>parent = map int [0..<nat n], rank = replicate (nat n) 0, count = n\<rparr>"
    by (simp add: NewUnionFind_def ret_def)
  have b0: "bounded n uf0" unfolding uf0 by (simp add: bounded_def sum_list_replicate)
  from NewUnionFind_ok[OF n] N have s0: "sized n uf0" by (auto simp: sized_def ret_def)
  from run_bounded[OF s0 b0 v R] have b: "bounded n uf" .
  from reachable_sized[OF assms] have "uf_inv uf" by (simp add: sized_def)
  then have c: "0 \<le> count uf" by (simp add: uf_inv_def)
  have nn: "\<forall>r\<in>set (rank uf). 0 \<le> r" and sm: "sum_list (rank uf) + count uf \<le> n"
    using b by (simp_all add: bounded_def)
  have le: "\<forall>r\<in>set (rank uf). r \<le> sum_list (rank uf)"
    using nn by (auto intro: member_le_sum_list)
  have "0 \<le> sum_list (rank uf)" using nn by (simp add: sum_list_nonneg)
  with sm have "count uf \<le> n" by simp
  moreover have "\<forall>r\<in>set (rank uf). 0 \<le> r \<and> r \<le> n"
  proof
    fix r assume r: "r \<in> set (rank uf)"
    with le have "r \<le> sum_list (rank uf)" by blast
    with sm c have "r \<le> n" by simp
    with nn r show "0 \<le> r \<and> r \<le> n" by blast
  qed
  ultimately show ?thesis using c by blast
qed

end
